theory Spec2Isabelle
  imports Main "HOL-Library.Multiset"
begin

section \<open>The water-jug solver of jugs.py\<close>

text \<open>
  The program has three classes. A \<open>Jug\<close> is a capacity and an amount; a \<open>JugsState\<close>
  is a list of jugs with its child states and a goal flag; a \<open>JugsGraph\<close> owns the root
  state and the goal. Python integers are unbounded, so capacities and amounts are
  \<open>int\<close>. Exceptions are values of \<open>exn\<close>.
\<close>

datatype exn = GoalFound | IndexError | TypeError

subsection \<open>class Jug\<close>

record Jug =
  capacity :: int
  amount :: int

definition Jug_init :: "int \<Rightarrow> Jug" where
  "Jug_init c = \<lparr>capacity = c, amount = 0\<rparr>"

definition fill_to_full :: "Jug \<Rightarrow> Jug" where
  "fill_to_full j = j\<lparr>amount := capacity j\<rparr>"

definition empty_jug :: "Jug \<Rightarrow> Jug" where
  "empty_jug j = j\<lparr>amount := 0\<rparr>"

text \<open>
  \<open>_fill\<close> adds to the jug and hands back what did not fit: the result is the updated
  jug and the returned remainder.
\<close>

definition fill :: "Jug \<Rightarrow> int \<Rightarrow> Jug \<times> int" where
  "fill j a =
     (let j1 = j\<lparr>amount := amount j + a\<rparr>
      in if amount j1 > capacity j1
         then (let remainder = amount j1 - capacity j1
               in (j1\<lparr>amount := amount j1 - remainder\<rparr>, remainder))
         else (j1, 0))"

text \<open>
  \<open>self.transfer(jug)\<close> for two distinct objects: the result is the pair
  (self afterwards, jug afterwards). The search never pours a jug into itself
  (line 147 skips \<open>i == k\<close>).
\<close>

definition transfer :: "Jug \<Rightarrow> Jug \<Rightarrow> Jug \<times> Jug" where
  "transfer self jug =
     (let (jug', remainder) = fill jug (amount self)
      in (self\<lparr>amount := remainder\<rparr>, jug'))"

definition jug_ok :: "Jug \<Rightarrow> bool" where
  "jug_ok j \<longleftrightarrow> 0 \<le> amount j \<and> amount j \<le> capacity j"

subsection \<open>class JugsState\<close>

text \<open>
  A state owns its children, so the object graph is a tree. The \<open>parent\<close> attribute is
  the node the state hangs under: \<open>add_state\<close> sets it when it appends the child, and it
  is read back as the chain of enclosing nodes.
\<close>

datatype JugsState =
  JugsState (jugs: "Jug list") (next_states: "JugsState list") (goal_flag: bool)

definition JugsState_init :: "Jug list \<Rightarrow> JugsState" where
  "JugsState_init js = JugsState (map (\<lambda>j. j) js) [] False"

definition add_state :: "JugsState \<Rightarrow> JugsState \<Rightarrow> JugsState" where
  "add_state self jugs_state =
     JugsState (jugs self) (next_states self @ [jugs_state]) (goal_flag self)"

definition set_goal_flag :: "bool \<Rightarrow> JugsState \<Rightarrow> JugsState" where
  "set_goal_flag b s = JugsState (jugs s) (next_states s) b"

text \<open>
  \<open>is_same\<close> walks \<open>enumerate(self.jugs)\<close> and reads \<open>state.jugs[i]\<close>, which raises
  IndexError when the other state has fewer jugs.
\<close>

fun is_same_loop :: "(nat \<times> Jug) list \<Rightarrow> Jug list \<Rightarrow> exn + bool" where
  "is_same_loop [] sj = Inr True"
| "is_same_loop ((i, j) # rest) sj =
     (if i < length sj
      then (if capacity j = capacity (sj ! i) \<and> amount j \<noteq> amount (sj ! i)
            then Inr False
            else is_same_loop rest sj)
      else Inl IndexError)"

definition is_same :: "JugsState \<Rightarrow> JugsState \<Rightarrow> exn + bool" where
  "is_same self state = is_same_loop (enumerate 0 (jugs self)) (jugs state)"

definition has_fill_amount :: "JugsState \<Rightarrow> int \<Rightarrow> bool" where
  "has_fill_amount self a = list_ex (\<lambda>j. amount j = a) (jugs self)"

subsection \<open>class JugsGraph: addressing the states of the tree\<close>

text \<open>
  The search mutates the state it is expanding while it scans the whole tree from the
  root. A state is therefore addressed by its position: the list of child indexes that
  leads from the root to it. \<open>state_at\<close> reads the state at a position, and
  \<open>add_state_at\<close> is \<open>add_state\<close> called on the state at that position.
\<close>

fun state_at :: "nat list \<Rightarrow> JugsState \<Rightarrow> JugsState option" where
  "state_at [] s = Some s"
| "state_at (i # p) s =
     (if i < length (next_states s) then state_at p (next_states s ! i) else None)"

fun add_state_at :: "nat list \<Rightarrow> JugsState \<Rightarrow> JugsState \<Rightarrow> JugsState" where
  "add_state_at [] c s = add_state s c"
| "add_state_at (i # p) c s =
     (if i < length (next_states s)
      then JugsState (jugs s)
             ((next_states s)[i := add_state_at p c (next_states s ! i)]) (goal_flag s)
      else s)"

text \<open>A list comprehension whose elements may raise: the first exception wins.\<close>

fun collect :: "(exn + 'a) list \<Rightarrow> exn + 'a list" where
  "collect [] = Inr []"
| "collect (Inl e # xs) = Inl e"
| "collect (Inr x # xs) = (case collect xs of Inl e \<Rightarrow> Inl e | Inr ys \<Rightarrow> Inr (x # ys))"

text \<open>The inner \<open>_helper\<close> of \<open>state_exists\<close> (lines 95 to 105).\<close>

fun state_exists_helper :: "JugsState \<Rightarrow> JugsState \<Rightarrow> exn + bool" where
  "state_exists_helper state (JugsState self_jugs self_next_states self_flag) =
     (case collect (map (is_same state) self_next_states) of
        Inl e \<Rightarrow> Inl e
      | Inr these_states \<Rightarrow>
         (case collect (map (state_exists_helper state) self_next_states) of
            Inl e \<Rightarrow> Inl e
          | Inr child_states \<Rightarrow>
              Inr (foldl (\<or>) (foldl (\<or>) False these_states) child_states)))"

definition state_exists :: "JugsState \<Rightarrow> JugsState \<Rightarrow> exn + bool" where
  "state_exists root state =
     (case is_same state root of
        Inl e \<Rightarrow> Inl e
      | Inr this_state \<Rightarrow>
         (case state_exists_helper state root of
            Inl e \<Rightarrow> Inl e
          | Inr child_states \<Rightarrow> Inr (this_state \<or> child_states)))"

subsection \<open>graph_it\<close>

text \<open>The three kinds of candidate built from the jugs of the current state.\<close>

definition fill_state :: "Jug list \<Rightarrow> nat \<Rightarrow> JugsState" where
  "fill_state js i = JugsState_init (js[i := fill_to_full (js ! i)])"

definition empty_state :: "Jug list \<Rightarrow> nat \<Rightarrow> JugsState" where
  "empty_state js i = JugsState_init (js[i := empty_jug (js ! i)])"

definition transfer_state :: "Jug list \<Rightarrow> nat \<Rightarrow> nat \<Rightarrow> JugsState" where
  "transfer_state js i k =
     (let (ji, jk) = transfer (js ! i) (js ! k)
      in JugsState_init (js[i := ji, k := jk]))"

text \<open>
  One candidate (lines 127 to 132, and the same for the other two kinds): attach it
  to the current state at position \<open>p\<close> unless an equal state exists, then set its goal
  flag and raise GoalFound when it holds the goal amount. The flag is written to the
  object after it was attached, and the attached child is that same object, so the
  child in the tree carries the flag. The result is the pending exception and the tree.
\<close>

definition try_state ::
  "int \<Rightarrow> nat list \<Rightarrow> JugsState \<Rightarrow> JugsState \<Rightarrow> exn option \<times> JugsState" where
  "try_state goal p cand root =
     (case state_exists root cand of
        Inl e \<Rightarrow> (Some e, root)
      | Inr ex \<Rightarrow>
         (let flagged = has_fill_amount cand goal;
              root1 = (if \<not> ex then add_state_at p (set_goal_flag flagged cand) root
                       else root)
          in (if flagged then Some GoalFound else None, root1)))"

text \<open>The loop over \<open>k\<close> (lines 146 to 157), with \<open>ks\<close> the indexes still to visit.\<close>

fun transfer_loop ::
  "int \<Rightarrow> nat list \<Rightarrow> Jug list \<Rightarrow> nat \<Rightarrow> nat list \<Rightarrow> JugsState
     \<Rightarrow> exn option \<times> JugsState" where
  "transfer_loop goal p js i [] root = (None, root)"
| "transfer_loop goal p js i (k # ks) root =
     (if i = k then transfer_loop goal p js i ks root
      else (case try_state goal p (transfer_state js i k) root of
              (Some e, root1) \<Rightarrow> (Some e, root1)
            | (None, root1) \<Rightarrow> transfer_loop goal p js i ks root1))"

text \<open>The loop over \<open>i\<close> (lines 122 to 157).\<close>

fun jug_loop ::
  "int \<Rightarrow> nat list \<Rightarrow> Jug list \<Rightarrow> nat list \<Rightarrow> JugsState \<Rightarrow> exn option \<times> JugsState" where
  "jug_loop goal p js [] root = (None, root)"
| "jug_loop goal p js (i # is) root =
     (case try_state goal p (fill_state js i) root of
        (Some e, root1) \<Rightarrow> (Some e, root1)
      | (None, root1) \<Rightarrow>
         (case try_state goal p (empty_state js i) root1 of
            (Some e, root2) \<Rightarrow> (Some e, root2)
          | (None, root2) \<Rightarrow>
             (case transfer_loop goal p js i [0..<length js] root2 of
                (Some e, root3) \<Rightarrow> (Some e, root3)
              | (None, root3) \<Rightarrow> jug_loop goal p js is root3)))"

text \<open>
  The loop over the children (lines 160 to 164); \<open>h\<close> is the recursive call. A call
  that does not return makes the loop not return (\<open>None\<close>). The indexes come from
  the list of children, so each addresses a child; the first case is there to make the
  lookup total.
\<close>

fun children_loop ::
  "(nat list \<Rightarrow> JugsState \<Rightarrow> (exn option \<times> JugsState) option) \<Rightarrow>
     nat list \<Rightarrow> nat list \<Rightarrow> JugsState \<Rightarrow> (exn option \<times> JugsState) option" where
  "children_loop h p [] root = Some (None, root)"
| "children_loop h p (i # is) root =
     (case state_at (p @ [i]) root of
        None \<Rightarrow> Some (None, root)
      | Some s \<Rightarrow>
         (if goal_flag s then Some (Some GoalFound, root)
          else (case h (p @ [i]) root of
                  None \<Rightarrow> None
                | Some (Some e, root1) \<Rightarrow> Some (Some e, root1)
                | Some (None, root1) \<Rightarrow> children_loop h p is root1)))"

lemma children_loop_mono [partial_function_mono]:
  assumes "\<And>q r. mono_option (\<lambda>f. H f q r)"
  shows "mono_option (\<lambda>f. children_loop (H f) p is root)"
proof (rule monotoneI)
  fix f g :: "'a \<Rightarrow> 'b option"
  assume fg: "fun_ord option_ord f g"
  have step: "option_ord (H f q r) (H g q r)" for q r
    using assms fg unfolding monotone_def by blast
  show "option_ord (children_loop (H f) p is root) (children_loop (H g) p is root)"
  proof (induction "is" arbitrary: root)
    case Nil
    show ?case by (simp add: flat_ord_def)
  next
    case (Cons i "is")
    from step [of "p @ [i]" root]
    consider "H f (p @ [i]) root = None" | "H f (p @ [i]) root = H g (p @ [i]) root"
      by (auto simp: flat_ord_def)
    then show ?case
    proof cases
      case 1
      then show ?thesis by (simp add: flat_ord_def split: option.splits)
    next
      case 2
      with Cons.IH show ?thesis
        by (auto simp: flat_ord_def split: option.splits prod.splits)
    qed
  qed
qed

text \<open>\<open>except GoalFound: pass\<close>: any other exception goes on to the caller.\<close>

fun except_GoalFound :: "exn option \<times> JugsState \<Rightarrow> exn option \<times> JugsState" where
  "except_GoalFound (Some GoalFound, r) = (None, r)"
| "except_GoalFound (e, r) = (e, r)"

text \<open>
  The inner \<open>_helper\<close> of \<open>graph_it\<close> (lines 117 to 167) on the state at position \<open>p\<close>.
  The result is \<open>None\<close> when the recursion does not return. A position always addresses
  a state of the tree; the first case is there to make the lookup total.
\<close>

partial_function (option) helper ::
  "int \<Rightarrow> nat list \<Rightarrow> JugsState \<Rightarrow> (exn option \<times> JugsState) option" where
  "helper goal p root =
     (case state_at p root of
        None \<Rightarrow> Some (None, root)
      | Some current_state \<Rightarrow>
         (case jug_loop goal p (jugs current_state)
                 [0..<length (jugs current_state)] root of
            (Some e, root1) \<Rightarrow> Some (except_GoalFound (Some e, root1))
          | (None, root1) \<Rightarrow>
              Option.bind
                (children_loop (helper goal) p
                   [0..<length (next_states (the (state_at p root1)))] root1)
                (\<lambda>res. Some (except_GoalFound res))))"

declare helper.simps [code]

record JugsGraph =
  start :: JugsState
  goal :: int
  graphed :: bool

definition JugsGraph_init :: "Jug list \<Rightarrow> int \<Rightarrow> JugsGraph" where
  "JugsGraph_init js g = \<lparr>start = JugsState_init js, goal = g, graphed = False\<rparr>"

text \<open>
  \<open>graph_it\<close> sets \<open>graphed\<close> before it calls the helper, so the flag is set also when
  an exception escapes.
\<close>

definition graph_it :: "JugsGraph \<Rightarrow> (exn option \<times> JugsGraph) option" where
  "graph_it self =
     (case helper (goal self) [] (start self) of
        None \<Rightarrow> None
      | Some (e, root) \<Rightarrow> Some (e, self\<lparr>start := root, graphed := True\<rparr>))"

subsection \<open>print_solutions\<close>

datatype printed =
  Solution int | Jugs "Jug list" | Steps int
  | NoSolutionFound | BestSolutionFound | RunGraphItFirst

record solution =
  steps :: int
  state_list :: "JugsState list"

text \<open>
  \<open>_get_state_path\<close> climbs the parent links and prepends each state. The chain of
  parents of the current state is given nearest first.
\<close>

fun get_state_path :: "JugsState \<Rightarrow> JugsState list \<Rightarrow> JugsState list \<Rightarrow> JugsState list" where
  "get_state_path current_state [] current_path = [current_state] @ current_path"
| "get_state_path current_state (parent # parents) current_path =
     get_state_path parent parents ([current_state] @ current_path)"

text \<open>
  \<open>_traverse_states\<close> threads the solution number, the solutions and the printed
  lines.
\<close>

fun traverse_states ::
  "JugsState list \<Rightarrow> JugsState \<Rightarrow> int \<times> solution list \<times> printed list
     \<Rightarrow> int \<times> solution list \<times> printed list" where
  "traverse_states parents (JugsState cur_jugs cur_next_states cur_flag) (n, sols, out) =
     (let current_state = JugsState cur_jugs cur_next_states cur_flag
      in if cur_flag
         then (let state_list = get_state_path current_state parents []
               in (n + 1,
                   sols @ [\<lparr>steps = int (length state_list), state_list = state_list\<rparr>],
                   out @ [Solution (n + 1)] @ map (\<lambda>s. Jugs (jugs s)) state_list
                       @ [Steps (int (length state_list))]))
         else fold (traverse_states (current_state # parents)) cur_next_states
                (n, sols, out))"

text \<open>The search for the shortest solution (lines 237 to 242).\<close>

fun min_loop :: "solution list \<Rightarrow> int \<Rightarrow> solution option \<Rightarrow> int \<times> solution option" where
  "min_loop [] min_steps sol = (min_steps, sol)"
| "min_loop (s # ss) min_steps sol =
     (if steps s < min_steps then min_loop ss (steps s) (Some s)
      else min_loop ss min_steps sol)"

definition print_solutions :: "JugsGraph \<Rightarrow> exn option \<times> printed list" where
  "print_solutions self =
     (if graphed self
      then (case traverse_states [] (start self) (0, [], []) of
              (n, sols, out) \<Rightarrow>
                (if n = 0 then (None, out @ [NoSolutionFound])
                 else (case snd (min_loop sols 9999999999 None) of
                         None \<Rightarrow> (Some TypeError, out @ [BestSolutionFound])
                       | Some s \<Rightarrow>
                           (None, out @ [BestSolutionFound]
                                  @ map (\<lambda>s. Jugs (jugs s)) (state_list s)
                                  @ [Steps (steps s)]))))
      else (None, [RunGraphItFirst]))"

text \<open>\<open>main\<close> without the terminal: build the jugs, run the search, print.\<close>

definition run :: "int list \<Rightarrow> int \<Rightarrow> (exn option \<times> JugsGraph) option" where
  "run caps g = graph_it (JugsGraph_init (map Jug_init caps) g)"

subsection \<open>Observations on a tree of states\<close>

fun all_states :: "JugsState \<Rightarrow> JugsState list" where
  "all_states (JugsState js ns f) = JugsState js ns f # concat (map all_states ns)"

definition count_states :: "JugsState \<Rightarrow> nat" where
  "count_states root = length (all_states root)"

definition amounts :: "JugsState \<Rightarrow> int list" where
  "amounts s = map amount (jugs s)"

definition capacities :: "JugsState \<Rightarrow> int list" where
  "capacities s = map capacity (jugs s)"

definition goal_states :: "JugsState \<Rightarrow> JugsState list" where
  "goal_states root = filter goal_flag (all_states root)"

text \<open>
  The jugs and the goal flag of every state of a tree, in the order of \<open>all_states\<close>;
  the positions that address a state; a tree that keeps every position of another.
\<close>

definition all_nodes :: "JugsState \<Rightarrow> (Jug list \<times> bool) list" where
  "all_nodes root = map (\<lambda>s. (jugs s, goal_flag s)) (all_states root)"

definition valid_at :: "nat list \<Rightarrow> JugsState \<Rightarrow> bool" where
  "valid_at p root \<longleftrightarrow> state_at p root \<noteq> None"

definition extends :: "JugsState \<Rightarrow> JugsState \<Rightarrow> bool" where
  "extends root root' \<longleftrightarrow> (\<forall>q. valid_at q root \<longrightarrow> valid_at q root')"

definition candidates :: "Jug list \<Rightarrow> JugsState set" where
  "candidates js =
     {fill_state js i | i. i < length js} \<union> {empty_state js i | i. i < length js} \<union>
     {transfer_state js i k | i k. i < length js \<and> k < length js \<and> i \<noteq> k}"

definition preserved :: "int \<Rightarrow> (Jug list \<Rightarrow> bool) \<Rightarrow> (JugsState \<Rightarrow> bool) \<Rightarrow> bool" where
  "preserved tgt J Q \<longleftrightarrow>
     (\<forall>p root js c. Q root \<longrightarrow> valid_at p root \<longrightarrow> J js \<longrightarrow> c \<in> candidates js \<longrightarrow>
        Q (snd (try_state tgt p c root)) \<and>
        fst (try_state tgt p c root) \<in> {None, Some GoalFound}) \<and>
     (\<forall>p root s. Q root \<longrightarrow> state_at p root = Some s \<longrightarrow> J (jugs s))"

definition node_amounts :: "Jug list \<times> bool \<Rightarrow> int list" where
  "node_amounts n = map amount (fst n)"

definition tree_inv :: "int list \<Rightarrow> (Jug list \<Rightarrow> bool \<Rightarrow> bool) \<Rightarrow> JugsState \<Rightarrow> bool" where
  "tree_inv caps R root \<longleftrightarrow>
     (\<forall>n\<in>set (all_nodes root). map capacity (fst n) = caps \<and> R (fst n) (snd n)) \<and>
     distinct (map node_amounts (all_nodes root)) \<and> \<not> goal_flag root"

definition state_space :: "int list \<Rightarrow> int list list" where
  "state_space caps = product_lists (map (\<lambda>c. [0..c]) caps)"

text \<open>
  What \<open>main\<close> prints after the search: nothing of \<open>print_solutions\<close> when an exception
  escaped \<open>graph_it\<close>.
\<close>

definition report :: "int list \<Rightarrow> int \<Rightarrow> (exn option \<times> printed list) option" where
  "report caps g =
     (case run caps g of
        None \<Rightarrow> None
      | Some (Some e, gr) \<Rightarrow> Some (Some e, [])
      | Some (None, gr) \<Rightarrow> Some (print_solutions gr))"

definition all_in_range :: "JugsState \<Rightarrow> bool" where
  "all_in_range root = list_all (\<lambda>s. list_all jug_ok (jugs s)) (all_states root)"

text \<open>
  The lines printed after \<open>Best solution found:\<close>, and a printed state given by its
  capacities and amounts.
\<close>

definition best_report :: "printed list \<Rightarrow> printed list" where
  "best_report out = tl (dropWhile (\<lambda>x. x \<noteq> BestSolutionFound) out)"

definition reported_best :: "int list \<Rightarrow> int \<Rightarrow> printed list option" where
  "reported_best caps g = map_option (\<lambda>r. best_report (snd r)) (report caps g)"

definition jugs_of :: "int list \<Rightarrow> int list \<Rightarrow> printed" where
  "jugs_of caps as = Jugs (map (\<lambda>(c, a). \<lparr>capacity = c, amount = a\<rparr>) (zip caps as))"

text \<open>
  The halt that the specification asks for, as a property of one later call of the
  helper: when a state of the tree is already marked as goal, the call attaches nothing.
\<close>

definition halts_globally :: "int \<Rightarrow> nat list \<Rightarrow> JugsState \<Rightarrow> bool" where
  "halts_globally tgt p root \<longleftrightarrow>
     (goal_states root \<noteq> [] \<longrightarrow>
        map_option (\<lambda>r. count_states (snd r)) (helper tgt p root) = Some (count_states root))"

text \<open>
  The run with capacities 3 and 5 and target 4: the tree after the candidates of the
  root, and the tree when the expansion of the first child of the root has returned.
\<close>

definition diehard_root :: JugsState where
  "diehard_root =
     snd (jug_loop 4 [] (map Jug_init [3, 5]) [0..<2] (JugsState_init (map Jug_init [3, 5])))"

definition first_goal_tree :: JugsState where
  "first_goal_tree = snd (the (helper 4 [0] diehard_root))"

text \<open>
  The specification of the extraction, in the words of the spec: the paths from the
  root to the states marked as goal, in depth-first order, each path listed from the
  root to the goal state; the lines printed for one path and for a list of paths, the
  solutions numbered from \<open>n + 1\<close>.
\<close>

fun goal_paths :: "JugsState list \<Rightarrow> JugsState \<Rightarrow> JugsState list list" where
  "goal_paths upper (JugsState js ns f) =
     (if f then [upper @ [JugsState js ns f]]
      else concat (map (goal_paths (upper @ [JugsState js ns f])) ns))"

definition print_path :: "int \<Rightarrow> JugsState list \<Rightarrow> printed list" where
  "print_path k path =
     [Solution k] @ map (\<lambda>s. Jugs (jugs s)) path @ [Steps (int (length path))]"

fun print_paths :: "int \<Rightarrow> JugsState list list \<Rightarrow> printed list" where
  "print_paths n [] = []"
| "print_paths n (path # paths) = print_path (n + 1) path @ print_paths (n + 1) paths"

definition solution_of :: "JugsState list \<Rightarrow> solution" where
  "solution_of path = \<lparr>steps = int (length path), state_list = path\<rparr>"

text \<open>
  The candidates of a state in the order in which the loops generate them: for each
  jug in turn the fill, the empty and the pours into the other jugs. \<open>try_all\<close> handles
  candidates one after the other and stops at the first that raises.
\<close>

definition candidates_of :: "Jug list \<Rightarrow> nat \<Rightarrow> JugsState list" where
  "candidates_of js i =
     [fill_state js i, empty_state js i]
       @ map (transfer_state js i) (filter (\<lambda>k. i \<noteq> k) [0..<length js])"

definition candidate_list :: "Jug list \<Rightarrow> JugsState list" where
  "candidate_list js = concat (map (candidates_of js) [0..<length js])"

fun try_all :: "int \<Rightarrow> nat list \<Rightarrow> JugsState list \<Rightarrow> JugsState \<Rightarrow> exn option \<times> JugsState" where
  "try_all tgt p [] root = (None, root)"
| "try_all tgt p (c # cs) root =
     (case try_state tgt p c root of
        (Some e, root1) \<Rightarrow> (Some e, root1)
      | (None, root1) \<Rightarrow> try_all tgt p cs root1)"

section \<open>Properties\<close>

subsection \<open>The container\<close>

lemma fill_fits:
  "amount j + a \<le> capacity j \<Longrightarrow> fill j a = (j\<lparr>amount := amount j + a\<rparr>, 0)"
  by (simp add: fill_def Let_def)

lemma fill_overflows:
  "capacity j < amount j + a \<Longrightarrow>
     fill j a = (j\<lparr>amount := capacity j\<rparr>, amount j + a - capacity j)"
  by (simp add: fill_def Let_def)

text \<open>
  C5. Pouring a source holding \<open>a\<close> into a destination holding \<open>b\<close> of capacity \<open>c\<close>, both
  amounts in range, moves exactly \<open>min a (c - b)\<close>: the destination ends at
  \<open>b + min a (c - b)\<close> and the source at \<open>a - min a (c - b)\<close>. Pouring into a full
  destination, or from an empty source, changes neither jug.
\<close>

theorem transfer_moves_min:
  assumes "0 \<le> a" and "0 \<le> b" and "b \<le> c"
  shows "transfer \<lparr>capacity = cs, amount = a\<rparr> \<lparr>capacity = c, amount = b\<rparr> =
           (\<lparr>capacity = cs, amount = a - min a (c - b)\<rparr>,
            \<lparr>capacity = c, amount = b + min a (c - b)\<rparr>)
         \<and> (b = c \<or> a = 0 \<longrightarrow>
              transfer \<lparr>capacity = cs, amount = a\<rparr> \<lparr>capacity = c, amount = b\<rparr> =
                (\<lparr>capacity = cs, amount = a\<rparr>, \<lparr>capacity = c, amount = b\<rparr>))"
proof -
  have main: "transfer \<lparr>capacity = cs, amount = a\<rparr> \<lparr>capacity = c, amount = b\<rparr> =
           (\<lparr>capacity = cs, amount = a - min a (c - b)\<rparr>,
            \<lparr>capacity = c, amount = b + min a (c - b)\<rparr>)"
  proof (cases "c < b + a")
    case True
    then have "min a (c - b) = c - b" by simp
    with True show ?thesis
      by (simp add: transfer_def fill_overflows)
  next
    case False
    then have "min a (c - b) = a" by simp
    with False show ?thesis
      by (simp add: transfer_def fill_fits add.commute)
  qed
  have "min a (c - b) = 0" if "b = c \<or> a = 0"
    using that assms by auto
  with main show ?thesis by auto
qed

theorem transfer_moves_min_witness:
  "transfer \<lparr>capacity = 5, amount = 5\<rparr> \<lparr>capacity = 3, amount = 1\<rparr> =
     (\<lparr>capacity = 5, amount = 3\<rparr>, \<lparr>capacity = 3, amount = 3\<rparr>)"
  using transfer_moves_min [of 5 1 3 5] by simp

subsection \<open>Equivalence of states\<close>

lemma is_same_loop_enumerate:
  "n + length xs \<le> length sj \<Longrightarrow>
     is_same_loop (enumerate n xs) sj =
       Inr (\<forall>i<length xs. capacity (xs ! i) = capacity (sj ! (n + i))
                \<longrightarrow> amount (xs ! i) = amount (sj ! (n + i)))"
proof (induction xs arbitrary: n)
  case Nil
  then show ?case by simp
next
  case (Cons x xs)
  then have "Suc n + length xs \<le> length sj" and "n < length sj" by simp_all
  with Cons.IH [of "Suc n"] show ?case
    by (auto simp: less_Suc_eq_0_disj)
qed

lemma is_same_loop_short:
  "length sj < n + length xs \<Longrightarrow> n \<le> length sj \<Longrightarrow>
     is_same_loop (enumerate n xs) sj = Inl IndexError \<or>
     is_same_loop (enumerate n xs) sj = Inr False"
proof (induction xs arbitrary: n)
  case Nil
  then show ?case by simp
next
  case (Cons x xs)
  then show ?case
    by (cases "n < length sj") auto
qed

text \<open>
  C3, as amended. For two states with the same number of jugs, \<open>is_same\<close> returns true
  exactly when the amounts agree at every position where the capacities agree; a
  position whose capacities differ is skipped. When the capacities agree at every
  position, as they do within one run, it returns true exactly when the amount vectors
  are equal, so two states whose amounts are swapped are then not the same.
\<close>

theorem is_same_positions:
  assumes "length (jugs a) = length (jugs b)"
  shows "is_same a b =
           Inr (\<forall>i<length (jugs a). capacity (jugs a ! i) = capacity (jugs b ! i)
                  \<longrightarrow> amount (jugs a ! i) = amount (jugs b ! i))
         \<and> (capacities a = capacities b \<longrightarrow> is_same a b = Inr (amounts a = amounts b))"
proof -
  have eq: "is_same a b =
           Inr (\<forall>i<length (jugs a). capacity (jugs a ! i) = capacity (jugs b ! i)
                  \<longrightarrow> amount (jugs a ! i) = amount (jugs b ! i))"
    using is_same_loop_enumerate [of 0 "jugs a" "jugs b"] assms
    by (simp add: is_same_def)
  have "(\<forall>i<length (jugs a). capacity (jugs a ! i) = capacity (jugs b ! i)
                  \<longrightarrow> amount (jugs a ! i) = amount (jugs b ! i)) = (amounts a = amounts b)"
    if "capacities a = capacities b"
  proof -
    have "capacity (jugs a ! i) = capacity (jugs b ! i)" if "i < length (jugs a)" for i
      using that \<open>capacities a = capacities b\<close> assms
      by (metis capacities_def nth_map)
    then show ?thesis
      using assms by (auto simp: amounts_def list_eq_iff_nth_eq)
  qed
  with eq show ?thesis by simp
qed

theorem is_same_positions_witness:
  "is_same (JugsState [\<lparr>capacity = 3, amount = 1\<rparr>, \<lparr>capacity = 5, amount = 2\<rparr>] [] False)
           (JugsState [\<lparr>capacity = 3, amount = 2\<rparr>, \<lparr>capacity = 5, amount = 1\<rparr>] [] False)
     = Inr False"
  using is_same_positions
    [of "JugsState [\<lparr>capacity = 3, amount = 1\<rparr>, \<lparr>capacity = 5, amount = 2\<rparr>] [] False"
        "JugsState [\<lparr>capacity = 3, amount = 2\<rparr>, \<lparr>capacity = 5, amount = 1\<rparr>] [] False",
     THEN conjunct2]
  by (simp add: capacities_def amounts_def)

text \<open>
  C3 as stated fails: two states whose jugs are swapped match at no position, in
  capacity or in amount, and \<open>is_same\<close> returns true for them.
\<close>

theorem is_same_ignores_capacity_mismatch:
  "\<not> (is_same (JugsState [\<lparr>capacity = 3, amount = 1\<rparr>, \<lparr>capacity = 5, amount = 2\<rparr>] [] False)
              (JugsState [\<lparr>capacity = 5, amount = 2\<rparr>, \<lparr>capacity = 3, amount = 1\<rparr>] [] False)
          = Inr True
        \<longrightarrow> capacities (JugsState [\<lparr>capacity = 3, amount = 1\<rparr>, \<lparr>capacity = 5, amount = 2\<rparr>] [] False)
              = capacities (JugsState [\<lparr>capacity = 5, amount = 2\<rparr>, \<lparr>capacity = 3, amount = 1\<rparr>] [] False)
            \<and> amounts (JugsState [\<lparr>capacity = 3, amount = 1\<rparr>, \<lparr>capacity = 5, amount = 2\<rparr>] [] False)
              = amounts (JugsState [\<lparr>capacity = 5, amount = 2\<rparr>, \<lparr>capacity = 3, amount = 1\<rparr>] [] False))"
  by (simp add: is_same_def enumerate_eq_zip capacities_def amounts_def)

subsection \<open>Positions and the states of a tree\<close>

lemma all_nodes_simp:
  "all_nodes (JugsState js ns f) = (js, f) # concat (map all_nodes ns)"
  by (simp add: all_nodes_def [abs_def] map_concat comp_def)

lemma all_nodes_length: "length (all_nodes root) = count_states root"
  by (simp add: all_nodes_def count_states_def)

lemma mset_concat_update:
  assumes "i < length ns"
  shows "mset (concat (map g (ns[i := x]))) + mset (g (ns ! i)) =
           mset (concat (map g ns)) + mset (g x)"
proof -
  have "ns = take i ns @ ns ! i # drop (Suc i) ns"
    using assms by (rule id_take_nth_drop)
  then have "concat (map g ns) =
      concat (map g (take i ns)) @ g (ns ! i) @ concat (map g (drop (Suc i) ns))"
    by (metis concat.simps(2) concat_append list.simps(9) map_append)
  moreover have "concat (map g (ns[i := x])) =
      concat (map g (take i ns)) @ g x @ concat (map g (drop (Suc i) ns))"
    using assms by (simp add: upd_conv_take_nth_drop)
  ultimately show ?thesis by simp
qed

lemma all_nodes_add_state_at:
  "valid_at p root \<Longrightarrow>
     mset (all_nodes (add_state_at p c root)) = mset (all_nodes root) + mset (all_nodes c)"
proof (induction p arbitrary: root)
  case Nil
  show ?case
    by (cases root) (simp add: add_state_def all_nodes_simp)
next
  case (Cons i p)
  obtain js ns f where root: "root = JugsState js ns f" by (cases root)
  from Cons.prems root have i: "i < length ns" and v: "valid_at p (ns ! i)"
    by (auto simp: valid_at_def split: if_splits)
  from Cons.IH [OF v] mset_concat_update [OF i, of all_nodes "add_state_at p c (ns ! i)"]
  have "mset (concat (map all_nodes (ns[i := add_state_at p c (ns ! i)]))) =
          mset (concat (map all_nodes ns)) + mset (all_nodes c)"
    by (simp add: add.commute add.left_commute)
  with i root show ?case
    by (simp add: all_nodes_simp)
qed

lemma valid_at_add_state_at:
  "valid_at q root \<Longrightarrow> valid_at q (add_state_at p c root)"
proof (induction p arbitrary: q root)
  case Nil
  then show ?case
    by (cases q) (auto simp: valid_at_def add_state_def nth_append split: if_splits)
next
  case (Cons i p)
  show ?case
  proof (cases q)
    case Nil
    then show ?thesis by (simp add: valid_at_def)
  next
    case (Cons j q')
    with Cons.prems have j: "j < length (next_states root)"
      and v: "valid_at q' (next_states root ! j)"
      by (auto simp: valid_at_def split: if_splits)
    show ?thesis
    proof (cases "i < length (next_states root)")
      case True
      with Cons j v Cons.IH [of q' "next_states root ! i"] show ?thesis
        by (cases "i = j") (auto simp: valid_at_def)
    next
      case False
      with Cons.prems show ?thesis by simp
    qed
  qed
qed

lemma length_le_concat:
  "i < length ns \<Longrightarrow> length (g (ns ! i)) \<le> length (concat (map g ns))"
proof (induction ns arbitrary: i)
  case Nil
  then show ?case by simp
next
  case (Cons a ns)
  then show ?case by (cases i) (auto simp: trans_le_add2)
qed

lemma valid_at_length: "valid_at p root \<Longrightarrow> length p < count_states root"
proof (induction p arbitrary: root)
  case Nil
  then show ?case by (cases root) (simp add: count_states_def)
next
  case (Cons i p)
  obtain js ns f where root: "root = JugsState js ns f" by (cases root)
  from Cons.prems root have i: "i < length ns" and v: "valid_at p (ns ! i)"
    by (auto simp: valid_at_def split: if_splits)
  from Cons.IH [OF v] length_le_concat [OF i, of all_states]
  show ?case using root by (simp add: count_states_def)
qed

lemma state_at_snoc:
  "state_at (p @ [i]) root =
     (case state_at p root of
        None \<Rightarrow> None
      | Some s \<Rightarrow> if i < length (next_states s) then Some (next_states s ! i) else None)"
  by (induction p arbitrary: root) auto

subsection \<open>The duplicate check\<close>

lemma collect_map:
  "(\<And>x. x \<in> set xs \<Longrightarrow> f x = Inr (g x)) \<Longrightarrow> collect (map f xs) = Inr (map g xs)"
  by (induction xs) simp_all

lemma foldl_or: "foldl (\<or>) b xs = (b \<or> (\<exists>x\<in>set xs. x))"
  by (induction xs arbitrary: b) auto

lemma all_states_head: "all_states s = s # concat (map all_states (next_states s))"
  by (cases s) simp

lemma self_in_all_states: "s \<in> set (all_states s)"
  by (subst all_states_head) simp

lemma child_in_all_states:
  "c \<in> set (next_states s) \<Longrightarrow> x \<in> set (all_states c) \<Longrightarrow> x \<in> set (all_states s)"
  by (subst all_states_head) auto

lemma is_same_amounts:
  "capacities s = capacities state \<Longrightarrow> is_same state s = Inr (amounts state = amounts s)"
proof -
  assume c: "capacities s = capacities state"
  then have "length (jugs state) = length (jugs s)"
    by (metis capacities_def length_map)
  from is_same_loop_enumerate [of 0 "jugs state" "jugs s"] this
  have "is_same state s =
          Inr (\<forall>i<length (jugs state). capacity (jugs state ! i) = capacity (jugs s ! i)
                 \<longrightarrow> amount (jugs state ! i) = amount (jugs s ! i))"
    by (simp add: is_same_def)
  moreover have "capacity (jugs state ! i) = capacity (jugs s ! i)"
    if "i < length (jugs state)" for i
    using that c \<open>length (jugs state) = length (jugs s)\<close>
    by (metis capacities_def nth_map)
  ultimately show ?thesis
    using \<open>length (jugs state) = length (jugs s)\<close>
    by (auto simp: amounts_def list_eq_iff_nth_eq)
qed

lemma state_exists_helper_eq:
  "(\<And>s. s \<in> set (all_states node) \<Longrightarrow> capacities s = capacities state) \<Longrightarrow>
     state_exists_helper state node =
       Inr (amounts state \<in> set (map amounts (tl (all_states node))))"
proof (induction state node rule: state_exists_helper.induct)
  case (1 state js ns f)
  have sub: "capacities x = capacities state"
    if "c \<in> set ns" "x \<in> set (all_states c)" for c x
    using that 1(2) [of x] by auto
  have these: "collect (map (is_same state) ns) =
                 Inr (map (\<lambda>s. amounts state = amounts s) ns)"
    by (rule collect_map) (use sub self_in_all_states in \<open>auto intro: is_same_amounts\<close>)
  have child: "collect (map (state_exists_helper state) ns) =
                 Inr (map (\<lambda>c. amounts state \<in> set (map amounts (tl (all_states c)))) ns)"
    by (rule collect_map) (use 1(1) [OF these] sub in auto)
  have "(amounts state \<in> set (map amounts (concat (map all_states ns)))) =
          ((\<exists>s\<in>set ns. amounts state = amounts s) \<or>
           (\<exists>c\<in>set ns. amounts state \<in> set (map amounts (tl (all_states c)))))"
    (is "?L = ?R")
  proof
    assume ?L
    then obtain c x where c: "c \<in> set ns" and x: "x \<in> set (all_states c)"
      and eq: "amounts state = amounts x" by auto
    from x have "x = c \<or> x \<in> set (tl (all_states c))"
      by (subst (asm) all_states_head) (subst all_states_head, auto)
    with c eq show ?R by auto
  next
    assume ?R
    then show ?L
    proof
      assume "\<exists>s\<in>set ns. amounts state = amounts s"
      then show ?L using self_in_all_states by fastforce
    next
      assume "\<exists>c\<in>set ns. amounts state \<in> set (map amounts (tl (all_states c)))"
      then obtain c x where "c \<in> set ns" "x \<in> set (tl (all_states c))"
        "amounts state = amounts x" by auto
      moreover then have "x \<in> set (all_states c)"
        by (subst all_states_head) (subst (asm) all_states_head, simp)
      ultimately show ?L by auto
    qed
  qed
  with these child show ?case
    by (simp add: foldl_or)
qed

lemma state_exists_eq:
  assumes "\<And>s. s \<in> set (all_states root) \<Longrightarrow> capacities s = capacities state"
  shows "state_exists root state = Inr (amounts state \<in> set (map amounts (all_states root)))"
proof -
  have "is_same state root = Inr (amounts state = amounts root)"
    using assms self_in_all_states by (intro is_same_amounts) auto
  moreover have "state_exists_helper state root =
       Inr (amounts state \<in> set (map amounts (tl (all_states root))))"
    using assms by (rule state_exists_helper_eq)
  moreover have "all_states root = root # tl (all_states root)"
    by (cases root) simp
  then have "set (map amounts (all_states root)) =
      insert (amounts root) (set (map amounts (tl (all_states root))))"
    by (metis list.simps(15) list.simps(9))
  ultimately show ?thesis
    by (simp add: state_exists_def)
qed

lemma try_state_eq:
  assumes "\<And>s. s \<in> set (all_states root) \<Longrightarrow> capacities s = capacities cand"
  shows "try_state tgt p cand root =
           (if has_fill_amount cand tgt then Some GoalFound else None,
            if amounts cand \<in> set (map amounts (all_states root)) then root
            else add_state_at p (set_goal_flag (has_fill_amount cand tgt) cand) root)"
  using state_exists_eq [OF assms] by (simp add: try_state_def Let_def)

subsection \<open>Invariants of the expansion\<close>

lemma extends_refl: "extends root root"
  by (simp add: extends_def)

lemma extends_trans: "extends a b \<Longrightarrow> extends b c \<Longrightarrow> extends a c"
  by (simp add: extends_def)

lemma extends_valid: "extends a b \<Longrightarrow> valid_at p a \<Longrightarrow> valid_at p b"
  by (simp add: extends_def)

lemma try_state_extends: "extends root (snd (try_state tgt p c root))"
  by (auto simp: try_state_def Let_def extends_def valid_at_add_state_at split: sum.splits)

lemma preserved_try:
  assumes "preserved tgt J Q" "Q root" "valid_at p root" "J js" "c \<in> candidates js"
  shows "Q (snd (try_state tgt p c root))"
    and "fst (try_state tgt p c root) = None \<or> fst (try_state tgt p c root) = Some GoalFound"
  using assms unfolding preserved_def by blast+

lemma transfer_loop_preserved:
  assumes "preserved tgt J Q" "J js" "i < length js"
  shows "Q root \<Longrightarrow> valid_at p root \<Longrightarrow> set ks \<subseteq> {..<length js} \<Longrightarrow>
     Q (snd (transfer_loop tgt p js i ks root)) \<and>
     extends root (snd (transfer_loop tgt p js i ks root)) \<and>
     (fst (transfer_loop tgt p js i ks root) = None \<or>
      fst (transfer_loop tgt p js i ks root) = Some GoalFound)"
proof (induction ks arbitrary: root)
  case Nil
  then show ?case by (simp add: extends_refl)
next
  case (Cons k ks)
  show ?case
  proof (cases "i = k")
    case True
    with Cons show ?thesis by simp
  next
    case False
    let ?c = "transfer_state js i k"
    obtain e root1 where t: "try_state tgt p ?c root = (e, root1)"
      by (cases "try_state tgt p ?c root")
    from Cons.prems False assms have c: "?c \<in> candidates js"
      by (auto simp: candidates_def)
    from preserved_try [OF assms(1) Cons.prems(1,2) assms(2) c] t
    have q1: "Q root1" and e: "e = None \<or> e = Some GoalFound" by simp_all
    from try_state_extends [of root tgt p ?c] t have x1: "extends root root1" by simp
    show ?thesis
    proof (cases e)
      case None
      from Cons.IH [OF q1 extends_valid [OF x1 Cons.prems(2)]] Cons.prems(3)
      have "Q (snd (transfer_loop tgt p js i ks root1)) \<and>
            extends root1 (snd (transfer_loop tgt p js i ks root1)) \<and>
            (fst (transfer_loop tgt p js i ks root1) = None \<or>
             fst (transfer_loop tgt p js i ks root1) = Some GoalFound)"
        by simp
      with None t False x1 show ?thesis
        by (auto intro: extends_trans)
    next
      case (Some x)
      with t False q1 x1 e show ?thesis by simp
    qed
  qed
qed

lemma jug_loop_preserved:
  assumes "preserved tgt J Q" "J js"
  shows "Q root \<Longrightarrow> valid_at p root \<Longrightarrow> set is \<subseteq> {..<length js} \<Longrightarrow>
     Q (snd (jug_loop tgt p js is root)) \<and>
     extends root (snd (jug_loop tgt p js is root)) \<and>
     (fst (jug_loop tgt p js is root) = None \<or>
      fst (jug_loop tgt p js is root) = Some GoalFound)"
proof (induction "is" arbitrary: root)
  case Nil
  then show ?case by (simp add: extends_refl)
next
  case (Cons i "is")
  then have i: "i < length js" by simp
  obtain e1 root1 where t1: "try_state tgt p (fill_state js i) root = (e1, root1)"
    by (cases "try_state tgt p (fill_state js i) root")
  have c1: "fill_state js i \<in> candidates js" using i by (auto simp: candidates_def)
  from preserved_try [OF assms(1) Cons.prems(1,2) assms(2) c1] t1
  have q1: "Q root1" and e1: "e1 = None \<or> e1 = Some GoalFound" by simp_all
  from try_state_extends [of root tgt p "fill_state js i"] t1
  have x1: "extends root root1" by simp
  have v1: "valid_at p root1" by (rule extends_valid [OF x1 Cons.prems(2)])
  obtain e2 root2 where t2: "try_state tgt p (empty_state js i) root1 = (e2, root2)"
    by (cases "try_state tgt p (empty_state js i) root1")
  have c2: "empty_state js i \<in> candidates js" using i by (auto simp: candidates_def)
  from preserved_try [OF assms(1) q1 v1 assms(2) c2] t2
  have q2: "Q root2" and e2: "e2 = None \<or> e2 = Some GoalFound" by simp_all
  from try_state_extends [of root1 tgt p "empty_state js i"] t2
  have x2: "extends root1 root2" by simp
  have v2: "valid_at p root2" by (rule extends_valid [OF x2 v1])
  obtain e3 root3 where t3: "transfer_loop tgt p js i [0..<length js] root2 = (e3, root3)"
    by (cases "transfer_loop tgt p js i [0..<length js] root2")
  have "set [0..<length js] \<subseteq> {..<length js}" by auto
  from transfer_loop_preserved [OF assms i q2 v2 this] t3
  have q3: "Q root3" and x3: "extends root2 root3"
    and e3: "e3 = None \<or> e3 = Some GoalFound" by simp_all
  have v3: "valid_at p root3" by (rule extends_valid [OF x3 v2])
  from Cons.IH [OF q3 v3] Cons.prems(3)
  have ih: "Q (snd (jug_loop tgt p js is root3)) \<and>
     extends root3 (snd (jug_loop tgt p js is root3)) \<and>
     (fst (jug_loop tgt p js is root3) = None \<or>
      fst (jug_loop tgt p js is root3) = Some GoalFound)"
    by simp
  have x13: "extends root root3" and x12: "extends root root2"
    using x1 x2 x3 by (blast intro: extends_trans)+
  show ?case
  proof (cases e1)
    case (Some a)
    with t1 q1 x1 e1 show ?thesis by simp
  next
    case n1: None
    show ?thesis
    proof (cases e2)
      case (Some a)
      with n1 t1 t2 q2 x12 e2 show ?thesis by simp
    next
      case n2: None
      show ?thesis
      proof (cases e3)
        case (Some a)
        with n1 n2 t1 t2 t3 q3 x13 e3 show ?thesis by simp
      next
        case None
        with n1 n2 t1 t2 t3 ih x13 show ?thesis
          by (auto intro: extends_trans)
      qed
    qed
  qed
qed

lemma children_loop_preserved:
  assumes h: "\<And>q root y. h q root = Some y \<Longrightarrow> Q root \<Longrightarrow> valid_at q root \<Longrightarrow>
                Q (snd y) \<and> extends root (snd y) \<and> fst y = None"
  shows "children_loop h p is root = Some y \<Longrightarrow> Q root \<Longrightarrow>
           Q (snd y) \<and> extends root (snd y) \<and> (fst y = None \<or> fst y = Some GoalFound)"
proof (induction "is" arbitrary: root)
  case Nil
  then show ?case by (auto simp: extends_refl)
next
  case (Cons i "is")
  show ?case
  proof (cases "state_at (p @ [i]) root")
    case None
    with Cons.prems show ?thesis by (auto simp: extends_refl)
  next
    case (Some s)
    then have v: "valid_at (p @ [i]) root" by (simp add: valid_at_def)
    show ?thesis
    proof (cases "goal_flag s")
      case True
      with Some Cons.prems show ?thesis by (auto simp: extends_refl)
    next
      case False
      with Some Cons.prems obtain e root1 where
        call: "h (p @ [i]) root = Some (e, root1)"
        by (auto split: option.splits)
      from h [OF call Cons.prems(2) v]
      have q1: "Q root1" and x1: "extends root root1" and e: "e = None" by simp_all
      from Cons.prems(1) Some False call e
      have "children_loop h p is root1 = Some y" by simp
      from Cons.IH [OF this q1] x1 show ?thesis
        by (auto intro: extends_trans)
    qed
  qed
qed

lemma helper_preserved_aux:
  assumes "helper tgt p root = Some y"
  shows "preserved tgt J Q \<longrightarrow> Q root \<longrightarrow> valid_at p root \<longrightarrow>
       Q (snd y) \<and> extends root (snd y) \<and> fst y = None"
  using assms
proof (induct tgt p root y rule: helper.raw_induct [rotated 1, consumes 1, case_names step])
  case (step h tgt p root y)
  note IH = step(1) and body = step(2)
  show ?case
  proof (intro impI)
    assume pres: "preserved tgt J Q" and q: "Q root" and v: "valid_at p root"
    from v obtain s where s: "state_at p root = Some s"
      by (auto simp: valid_at_def)
    from pres q s have J: "J (jugs s)"
      unfolding preserved_def by blast
    let ?js = "jugs s"
    obtain e1 root1 where jl: "jug_loop tgt p ?js [0..<length ?js] root = (e1, root1)"
      by (cases "jug_loop tgt p ?js [0..<length ?js] root")
    have "set [0..<length ?js] \<subseteq> {..<length ?js}" by auto
    from jug_loop_preserved [OF pres J q v this] jl
    have q1: "Q root1" and x1: "extends root root1"
      and e1: "e1 = None \<or> e1 = Some GoalFound" by simp_all
    show "Q (snd y) \<and> extends root (snd y) \<and> fst y = None"
    proof (cases e1)
      case (Some a)
      with e1 have "e1 = Some GoalFound" by simp
      with body s jl have "y = (None, root1)" by simp
      with q1 x1 show ?thesis by simp
    next
      case None
      with body s jl obtain res where
        cl: "children_loop (h tgt) p
               [0..<length (next_states (the (state_at p root1)))] root1 = Some res"
        and y: "y = except_GoalFound res"
        by (auto simp: bind_eq_Some_conv)
      have "Q (snd res) \<and> extends root1 (snd res) \<and>
            (fst res = None \<or> fst res = Some GoalFound)"
      proof (rule children_loop_preserved [where Q = Q and h = "h tgt", OF _ cl q1])
        fix q' r y'
        assume "h tgt q' r = Some y'" "Q r" "valid_at q' r"
        then show "Q (snd y') \<and> extends r (snd y') \<and> fst y' = None"
          using IH [of tgt q' r y'] pres by blast
      qed
      with y x1 show ?thesis
        by (cases res) (auto intro: extends_trans)
    qed
  qed
qed

lemma helper_preserved:
  assumes "helper tgt p root = Some y" "preserved tgt J Q" "Q root" "valid_at p root"
  shows "Q (snd y) \<and> extends root (snd y) \<and> fst y = None"
  using helper_preserved_aux [OF assms(1), of J Q] assms(2-) by blast

lemma children_loop_returns:
  assumes h: "\<And>q root. Q root \<Longrightarrow> valid_at q root \<Longrightarrow> length q = Suc (length p) \<Longrightarrow>
                \<exists>r. h q root = Some (None, r) \<and> Q r"
  shows "Q root \<Longrightarrow> \<exists>y. children_loop h p is root = Some y"
proof (induction "is" arbitrary: root)
  case Nil
  then show ?case by simp
next
  case (Cons i "is")
  show ?case
  proof (cases "state_at (p @ [i]) root")
    case None
    then show ?thesis by simp
  next
    case (Some s)
    then have v: "valid_at (p @ [i]) root" by (simp add: valid_at_def)
    from h [OF Cons.prems v] obtain r where r: "h (p @ [i]) root = Some (None, r)" "Q r"
      by auto
    from Cons.IH [OF r(2)] obtain y where "children_loop h p is r = Some y" by blast
    with Some r show ?thesis by simp
  qed
qed

lemma helper_returns:
  assumes pres: "preserved tgt J Q"
    and bound: "\<And>root. Q root \<Longrightarrow> count_states root \<le> N"
  shows "Q root \<Longrightarrow> valid_at p root \<Longrightarrow>
           \<exists>r. helper tgt p root = Some (None, r) \<and> Q r \<and> extends root r"
proof (induction "N - length p" arbitrary: p root rule: less_induct)
  case less
  from less.prems obtain s where s: "state_at p root = Some s"
    by (auto simp: valid_at_def)
  from pres less.prems(1) s have J: "J (jugs s)"
    unfolding preserved_def by blast
  let ?js = "jugs s"
  obtain e1 root1 where jl: "jug_loop tgt p ?js [0..<length ?js] root = (e1, root1)"
    by (cases "jug_loop tgt p ?js [0..<length ?js] root")
  have "set [0..<length ?js] \<subseteq> {..<length ?js}" by auto
  from jug_loop_preserved [OF pres J less.prems this] jl
  have q1: "Q root1" and x1: "extends root root1"
    and e1: "e1 = None \<or> e1 = Some GoalFound" by simp_all
  from valid_at_length [OF less.prems(2)] bound [OF less.prems(1)]
  have lt: "length p < N" by simp
  have ex: "\<exists>y. helper tgt p root = Some y"
  proof (cases e1)
    case (Some a)
    with s jl show ?thesis by (subst helper.simps) simp
  next
    case None
    have "\<exists>res. children_loop (helper tgt) p
             [0..<length (next_states (the (state_at p root1)))] root1 = Some res"
    proof (rule children_loop_returns [where Q = Q and h = "helper tgt", OF _ q1])
      fix q r
      assume a: "Q r" "valid_at q r" and "length q = Suc (length p)"
      with lt have "N - length q < N - length p" by simp
      from less.hyps [OF this a] show "\<exists>r'. helper tgt q r = Some (None, r') \<and> Q r'"
        by auto
    qed
    with None s jl show ?thesis by (subst helper.simps) auto
  qed
  then obtain y where y: "helper tgt p root = Some y" ..
  from helper_preserved [OF y pres less.prems] y show ?case
    by (cases y) auto
qed

lemma amounts_all_states:
  "map amounts (all_states root) = map node_amounts (all_nodes root)"
  by (simp add: all_nodes_def amounts_def node_amounts_def)

lemma capacities_all_states:
  "(\<forall>s\<in>set (all_states root). capacities s = caps) =
     (\<forall>n\<in>set (all_nodes root). map capacity (fst n) = caps)"
  by (simp add: all_nodes_def capacities_def)

lemma state_at_in_all_states:
  "state_at p root = Some s \<Longrightarrow> s \<in> set (all_states root)"
proof (induction p arbitrary: root)
  case Nil
  then show ?case by (simp add: self_in_all_states)
next
  case (Cons i p)
  then have "i < length (next_states root)"
    and "state_at p (next_states root ! i) = Some s"
    by (auto split: if_splits)
  with Cons.IH show ?case
    by (meson child_in_all_states nth_mem)
qed

lemma state_at_in_all_nodes:
  "state_at p root = Some s \<Longrightarrow> (jugs s, goal_flag s) \<in> set (all_nodes root)"
  using state_at_in_all_states [of p root s] by (auto simp: all_nodes_def)

lemma goal_flag_add_state_at: "goal_flag (add_state_at p c root) = goal_flag root"
  by (cases p) (simp_all add: add_state_def)

lemma capacity_transfer:
  "capacity (fst (transfer a b)) = capacity a" "capacity (snd (transfer a b)) = capacity b"
  by (simp_all add: transfer_def fill_def Let_def split: prod.splits)

lemma jug_ok_transfer:
  "jug_ok a \<Longrightarrow> jug_ok b \<Longrightarrow> jug_ok (fst (transfer a b)) \<and> jug_ok (snd (transfer a b))"
  by (auto simp: transfer_def fill_def Let_def jug_ok_def split: prod.splits)

lemma jug_ok_fill_empty:
  "jug_ok a \<Longrightarrow> jug_ok (fill_to_full a) \<and> jug_ok (empty_jug a)"
  by (auto simp: fill_to_full_def empty_jug_def jug_ok_def)

lemma map_capacity_update:
  assumes "capacity x = capacity (js ! i)"
  shows "map capacity (js[i := x]) = map capacity js"
proof (cases "i < length js")
  case True
  with assms have "(map capacity js)[i := capacity x] = (map capacity js)[i := map capacity js ! i]"
    by simp
  then show ?thesis by (simp add: map_update del: nth_map)
next
  case False
  then have "length js \<le> i" by simp
  then have "js[i := x] = js" by (rule list_update_beyond)
  then show ?thesis by simp
qed

lemma list_all_update: "list_all P xs \<Longrightarrow> P y \<Longrightarrow> list_all P (xs[i := y])"
  by (metis (full_types) in_set_conv_nth length_list_update list_all_length
      nth_list_update_eq nth_list_update_neq)

lemma candidates_form:
  assumes "c \<in> candidates js"
  shows "next_states c = []" and "\<not> goal_flag c"
    and "map capacity (jugs c) = map capacity js"
    and "list_all jug_ok js \<Longrightarrow> list_all jug_ok (jugs c)"
proof -
  from assms consider
    i where "i < length js" "c = fill_state js i"
    | i where "i < length js" "c = empty_state js i"
    | i k where "i < length js" "k < length js" "i \<noteq> k" "c = transfer_state js i k"
    by (auto simp: candidates_def)
  then have "next_states c = [] \<and> \<not> goal_flag c \<and> map capacity (jugs c) = map capacity js
      \<and> (list_all jug_ok js \<longrightarrow> list_all jug_ok (jugs c))"
  proof cases
    case 1
    have "list_all jug_ok (js[i := fill_to_full (js ! i)])" if "list_all jug_ok js"
    proof -
      from that 1 have "jug_ok (js ! i)" by (simp add: list_all_length)
      with that show ?thesis by (simp add: list_all_update jug_ok_fill_empty)
    qed
    moreover have "capacity (fill_to_full (js ! i)) = capacity (js ! i)"
      by (simp add: fill_to_full_def)
    ultimately show ?thesis using 1
      by (simp add: fill_state_def JugsState_init_def map_capacity_update)
  next
    case 2
    have "list_all jug_ok (js[i := empty_jug (js ! i)])" if "list_all jug_ok js"
    proof -
      from that 2 have "jug_ok (js ! i)" by (simp add: list_all_length)
      with that show ?thesis by (simp add: list_all_update jug_ok_fill_empty)
    qed
    moreover have "capacity (empty_jug (js ! i)) = capacity (js ! i)"
      by (simp add: empty_jug_def)
    ultimately show ?thesis using 2
      by (simp add: empty_state_def JugsState_init_def map_capacity_update)
  next
    case 3
    obtain ji jk where t: "transfer (js ! i) (js ! k) = (ji, jk)"
      by (cases "transfer (js ! i) (js ! k)")
    with capacity_transfer [of "js ! i" "js ! k"]
    have cap: "capacity ji = capacity (js ! i)" "capacity jk = capacity (js ! k)" by simp_all
    from 3 t have jc: "jugs c = js[i := ji, k := jk]"
      by (simp add: transfer_state_def JugsState_init_def)
    from cap 3 have "map capacity (js[i := ji, k := jk]) = map capacity js"
      by (simp add: map_capacity_update)
    moreover have "list_all jug_ok (js[i := ji, k := jk])" if "list_all jug_ok js"
    proof -
      from that 3 have "jug_ok (js ! i)" "jug_ok (js ! k)"
        by (simp_all add: list_all_length)
      with jug_ok_transfer [of "js ! i" "js ! k"] t have "jug_ok ji" "jug_ok jk" by simp_all
      with that show ?thesis by (simp add: list_all_update)
    qed
    ultimately show ?thesis using 3 t jc
      by (simp add: transfer_state_def JugsState_init_def)
  qed
  then show "next_states c = []" and "\<not> goal_flag c"
    and "map capacity (jugs c) = map capacity js"
    and "list_all jug_ok js \<Longrightarrow> list_all jug_ok (jugs c)"
    by simp_all
qed

lemma try_state_inv:
  assumes inv: "tree_inv caps R root" and v: "valid_at p root" and c: "c \<in> candidates js"
    and cap: "map capacity js = caps" and R: "R (jugs c) (has_fill_amount c tgt)"
  shows "tree_inv caps R (snd (try_state tgt p c root))"
    and "fst (try_state tgt p c root) = (if has_fill_amount c tgt then Some GoalFound else None)"
proof -
  note cf = candidates_form [OF c]
  have capc: "capacities c = caps"
    using cf(3) cap by (simp add: capacities_def)
  have shape: "capacities s = capacities c" if "s \<in> set (all_states root)" for s
    using inv that capc capacities_all_states [of root caps] by (auto simp: tree_inv_def)
  note eq = try_state_eq [of root c tgt p, OF shape]
  show "fst (try_state tgt p c root) = (if has_fill_amount c tgt then Some GoalFound else None)"
    by (simp add: eq)
  show "tree_inv caps R (snd (try_state tgt p c root))"
  proof (cases "amounts c \<in> set (map amounts (all_states root))")
    case True
    with eq inv show ?thesis by simp
  next
    case False
    let ?b = "has_fill_amount c tgt"
    let ?c' = "set_goal_flag ?b c"
    let ?r = "add_state_at p ?c' root"
    have leaf: "all_nodes ?c' = [(jugs c, ?b)]"
      using cf(1) by (simp add: set_goal_flag_def all_nodes_simp)
    from all_nodes_add_state_at [OF v, of ?c'] leaf
    have m: "mset (all_nodes ?r) = mset ((jugs c, ?b) # all_nodes root)" by simp
    then have s: "set (all_nodes ?r) = insert (jugs c, ?b) (set (all_nodes root))"
      by (metis list.simps(15) set_mset_mset)
    from m have "mset (map node_amounts (all_nodes ?r)) =
                 mset (map node_amounts ((jugs c, ?b) # all_nodes root))"
      by (metis mset_map)
    then have "distinct (map node_amounts (all_nodes ?r)) =
               distinct (map node_amounts ((jugs c, ?b) # all_nodes root))"
      by (rule mset_eq_imp_distinct_iff)
    moreover have "node_amounts (jugs c, ?b) \<notin> set (map node_amounts (all_nodes root))"
      using False by (simp add: amounts_all_states node_amounts_def amounts_def)
    ultimately have d: "distinct (map node_amounts (all_nodes ?r))"
      using inv by (simp add: tree_inv_def)
    have "map capacity (jugs c) = caps" using cf(3) cap by simp
    with s d R inv have "tree_inv caps R ?r"
      by (auto simp: tree_inv_def goal_flag_add_state_at)
    with eq False show ?thesis by simp
  qed
qed

lemma preserved_inv:
  assumes cand: "\<And>js c. map capacity js = caps \<Longrightarrow> J js \<Longrightarrow> c \<in> candidates js \<Longrightarrow>
                   R (jugs c) (has_fill_amount c tgt)"
    and node: "\<And>js f. R js f \<Longrightarrow> J js"
  shows "preserved tgt (\<lambda>js. map capacity js = caps \<and> J js) (tree_inv caps R)"
  unfolding preserved_def
proof (intro conjI allI impI)
  fix p root js c
  assume a: "tree_inv caps R root" "valid_at p root" "map capacity js = caps \<and> J js"
    "c \<in> candidates js"
  then have R: "R (jugs c) (has_fill_amount c tgt)" using cand by blast
  from try_state_inv [OF a(1,2,4) _ R] a(3)
  show "tree_inv caps R (snd (try_state tgt p c root))"
    and "fst (try_state tgt p c root) \<in> {None, Some GoalFound}"
    by simp_all
next
  fix p root s
  assume "tree_inv caps R root" "state_at p root = Some s"
  with state_at_in_all_nodes [of p root s] node
  show "map capacity (jugs s) = caps" and "J (jugs s)"
    by (auto simp: tree_inv_def)
qed

lemma inv_bound:
  assumes ok: "\<And>js f. R js f \<Longrightarrow> list_all jug_ok js" and inv: "tree_inv caps R root"
  shows "count_states root \<le> length (state_space caps)"
proof -
  let ?xs = "map node_amounts (all_nodes root)"
  have "set ?xs \<subseteq> set (state_space caps)"
  proof
    fix x assume "x \<in> set ?xs"
    then obtain js f where n: "(js, f) \<in> set (all_nodes root)" and x: "x = map amount js"
      by (auto simp: node_amounts_def)
    with inv have c: "map capacity js = caps" and "R js f" by (auto simp: tree_inv_def)
    with ok have "list_all jug_ok js" by blast
    then have "list_all2 (\<lambda>a c. a \<in> set [0..c]) (map amount js) (map capacity js)"
      by (induction js) (auto simp: jug_ok_def)
    with c x show "x \<in> set (state_space caps)"
      by (simp add: state_space_def product_lists_set list_all2_map2)
  qed
  then have "card (set ?xs) \<le> card (set (state_space caps))"
    by (intro card_mono) simp_all
  moreover have "card (set ?xs) = length ?xs"
    using inv by (intro distinct_card) (simp add: tree_inv_def)
  moreover have "card (set (state_space caps)) \<le> length (state_space caps)"
    by (rule card_length)
  ultimately show ?thesis
    by (simp add: all_nodes_length)
qed

subsection \<open>The search as a whole\<close>

lemma inv_initial:
  "R (map Jug_init caps) False \<Longrightarrow> tree_inv caps R (JugsState_init (map Jug_init caps))"
  by (simp add: tree_inv_def JugsState_init_def all_nodes_simp Jug_init_def comp_def)

lemma jug_ok_initial: "\<forall>c\<in>set caps. 0 \<le> c \<Longrightarrow> list_all jug_ok (map Jug_init caps)"
  by (simp add: list_all_iff jug_ok_def Jug_init_def)

lemma helper_root_returns:
  assumes cand: "\<And>js c. map capacity js = caps \<Longrightarrow> list_all jug_ok js \<Longrightarrow>
                   c \<in> candidates js \<Longrightarrow> R (jugs c) (has_fill_amount c tgt)"
    and ok: "\<And>js f. R js f \<Longrightarrow> list_all jug_ok js"
    and init: "R (map Jug_init caps) False"
  shows "\<exists>r. helper tgt [] (JugsState_init (map Jug_init caps)) = Some (None, r)
             \<and> tree_inv caps R r"
proof -
  have pres: "preserved tgt (\<lambda>js. map capacity js = caps \<and> list_all jug_ok js) (tree_inv caps R)"
    using cand ok by (rule preserved_inv)
  have bound: "\<And>root. tree_inv caps R root \<Longrightarrow> count_states root \<le> length (state_space caps)"
    using ok by (rule inv_bound)
  from helper_returns [OF pres bound inv_initial [of R caps, OF init], of "[]"]
  show ?thesis by (auto simp: valid_at_def)
qed

lemma helper_root_partial:
  assumes "helper tgt [] (JugsState_init (map Jug_init caps)) = Some (e, r)"
  shows "e = None \<and> tree_inv caps (\<lambda>js f. True) r"
proof -
  have pres: "preserved tgt (\<lambda>js. map capacity js = caps \<and> True) (tree_inv caps (\<lambda>js f. True))"
    by (rule preserved_inv) simp_all
  have "tree_inv caps (\<lambda>js f. True) (JugsState_init (map Jug_init caps))"
    by (rule inv_initial) simp
  from helper_preserved [OF assms pres this] show ?thesis
    by (simp add: valid_at_def)
qed

lemma inv_in_range:
  assumes "\<And>js f. R js f \<Longrightarrow> list_all jug_ok js" and "tree_inv caps R r"
  shows "all_in_range r"
  using assms by (auto simp: tree_inv_def all_in_range_def all_nodes_def list_all_iff)

lemma run_eq:
  "helper tgt [] (JugsState_init (map Jug_init caps)) = Some (e, r) \<Longrightarrow>
     run caps tgt = Some (e, \<lparr>start = r, goal = tgt, graphed = True\<rparr>)"
  by (simp add: run_def graph_it_def JugsGraph_init_def)

lemma run_cases:
  assumes "run caps tgt = Some (e, g)"
  shows "helper tgt [] (JugsState_init (map Jug_init caps)) = Some (e, start g)"
    and "graphed g" and "goal g = tgt"
  using assms by (auto simp: run_def graph_it_def JugsGraph_init_def split: option.splits)

lemma run_in_range:
  assumes "\<forall>c\<in>set caps. 0 \<le> c"
  shows "\<exists>r. run caps tgt = Some (None, \<lparr>start = r, goal = tgt, graphed = True\<rparr>)
             \<and> all_in_range r"
proof -
  let ?R = "\<lambda>(js :: Jug list) (f :: bool). list_all jug_ok js"
  have "\<exists>r. helper tgt [] (JugsState_init (map Jug_init caps)) = Some (None, r)
             \<and> tree_inv caps ?R r"
  proof (rule helper_root_returns [where R = ?R])
    show "list_all jug_ok (map Jug_init caps)"
      using assms by (simp add: jug_ok_initial)
  qed (simp_all add: candidates_form)
  then obtain r where h: "helper tgt [] (JugsState_init (map Jug_init caps)) = Some (None, r)"
    and i: "tree_inv caps ?R r" by blast
  have "all_in_range r" by (rule inv_in_range [where R = ?R, OF _ i])
  with run_eq [OF h] show ?thesis by blast
qed

subsection \<open>Termination and the range of the amounts\<close>



text \<open>
  C4. Filling, emptying and pouring keep \<open>0 \<le> amount \<le> capacity\<close> for the jugs
  involved, and for positive capacities the search returns a graph in which every jug
  of every state is within that range.
\<close>

theorem amounts_stay_in_range:
  assumes "\<forall>c\<in>set caps. 0 < c"
  shows "(jug_ok j \<longrightarrow> jug_ok (fill_to_full j) \<and> jug_ok (empty_jug j)) \<and>
         (jug_ok a \<and> jug_ok b \<longrightarrow> jug_ok (fst (transfer a b)) \<and> jug_ok (snd (transfer a b))) \<and>
         (\<exists>g. graph_it (JugsGraph_init (map Jug_init caps) tgt) = Some (None, g) \<and>
              (\<forall>s\<in>set (all_states (start g)). \<forall>j\<in>set (jugs s).
                 0 \<le> amount j \<and> amount j \<le> capacity j))"
proof -
  from assms have "\<forall>c\<in>set caps. 0 \<le> c" by auto
  from run_in_range [OF this, of tgt] obtain r where
    r: "run caps tgt = Some (None, \<lparr>start = r, goal = tgt, graphed = True\<rparr>)"
    and ok: "all_in_range r" by blast
  from ok have "\<forall>s\<in>set (all_states r). \<forall>j\<in>set (jugs s).
                 0 \<le> amount j \<and> amount j \<le> capacity j"
    by (simp add: all_in_range_def list_all_iff jug_ok_def)
  with r have "\<exists>g. graph_it (JugsGraph_init (map Jug_init caps) tgt) = Some (None, g) \<and>
              (\<forall>s\<in>set (all_states (start g)). \<forall>j\<in>set (jugs s).
                 0 \<le> amount j \<and> amount j \<le> capacity j)"
    by (auto simp: run_def)
  with jug_ok_fill_empty [of j] jug_ok_transfer [of a b] show ?thesis
    by blast
qed

theorem amounts_stay_in_range_witness:
  "jug_ok (fill_to_full \<lparr>capacity = 5, amount = 2\<rparr>) \<and>
   jug_ok (empty_jug \<lparr>capacity = 5, amount = 2\<rparr>) \<and>
   jug_ok (fst (transfer \<lparr>capacity = 5, amount = 4\<rparr> \<lparr>capacity = 3, amount = 1\<rparr>)) \<and>
   jug_ok (snd (transfer \<lparr>capacity = 5, amount = 4\<rparr> \<lparr>capacity = 3, amount = 1\<rparr>)) \<and>
   (\<exists>g. graph_it (JugsGraph_init (map Jug_init [3, 5]) 4) = Some (None, g) \<and>
        all_in_range (start g))"
  using amounts_stay_in_range
    [of "[3, 5]" "\<lparr>capacity = 5, amount = 2\<rparr>" "\<lparr>capacity = 5, amount = 4\<rparr>"
        "\<lparr>capacity = 3, amount = 1\<rparr>" 4]
  by (simp add: jug_ok_def all_in_range_def list_all_iff)

subsection \<open>No state twice\<close>

lemma graph_it_distinct:
  assumes "graph_it (JugsGraph_init (map Jug_init caps) tgt) = Some (e, g)"
  shows "distinct (map amounts (all_states (start g)))"
    and "\<forall>s\<in>set (all_states (start g)). capacities s = caps"
proof -
  from assms have "run caps tgt = Some (e, g)" by (simp add: run_def)
  from helper_root_partial [OF run_cases(1) [OF this]]
  have i: "tree_inv caps (\<lambda>js f. True) (start g)" by simp
  then show "distinct (map amounts (all_states (start g)))"
    by (simp add: amounts_all_states tree_inv_def)
  from i show "\<forall>s\<in>set (all_states (start g)). capacities s = caps"
    by (simp add: capacities_all_states tree_inv_def)
qed

text \<open>
  C6. A candidate whose amounts equal those of a state anywhere in the tree is not
  attached: the tree stays as it was. The states of the graph that \<open>graph_it\<close> returns
  have pairwise different amounts, and \<open>is_same\<close> is false for any two of them.
\<close>

theorem no_duplicate_states:
  "((\<forall>s\<in>set (all_states root). capacities s = capacities cand) \<and>
      amounts cand \<in> set (map amounts (all_states root))
      \<longrightarrow> snd (try_state tgt p cand root) = root) \<and>
   (graph_it (JugsGraph_init (map Jug_init caps) tgt) = Some (e, g)
      \<longrightarrow> distinct (map amounts (all_states (start g))) \<and>
          (\<forall>i j. i < j \<and> j < length (all_states (start g))
             \<longrightarrow> is_same (all_states (start g) ! i) (all_states (start g) ! j) = Inr False))"
proof (intro conjI impI allI)
  assume "(\<forall>s\<in>set (all_states root). capacities s = capacities cand) \<and>
      amounts cand \<in> set (map amounts (all_states root))"
  then show "snd (try_state tgt p cand root) = root"
    using try_state_eq [of root cand tgt p] by simp
next
  assume "graph_it (JugsGraph_init (map Jug_init caps) tgt) = Some (e, g)"
  then show "distinct (map amounts (all_states (start g)))"
    by (rule graph_it_distinct)
next
  fix i j
  let ?xs = "all_states (start g)"
  assume run: "graph_it (JugsGraph_init (map Jug_init caps) tgt) = Some (e, g)"
    and ij: "i < j \<and> j < length ?xs"
  from graph_it_distinct [OF run] ij
  have d: "distinct (map amounts ?xs)" and c: "capacities (?xs ! j) = capacities (?xs ! i)"
    by simp_all
  from ij have "i < length (map amounts ?xs)" "j < length (map amounts ?xs)" "i \<noteq> j"
    by auto
  with d have "map amounts ?xs ! i \<noteq> map amounts ?xs ! j"
    unfolding distinct_conv_nth by blast
  with ij have "amounts (?xs ! i) \<noteq> amounts (?xs ! j)" by simp
  with is_same_amounts [OF c] show "is_same (?xs ! i) (?xs ! j) = Inr False"
    by simp
qed

theorem no_duplicate_states_witness:
  "snd (try_state 4 [0] (JugsState [\<lparr>capacity = 3, amount = 0\<rparr>, \<lparr>capacity = 5, amount = 0\<rparr>] [] False)
         (JugsState [\<lparr>capacity = 3, amount = 0\<rparr>, \<lparr>capacity = 5, amount = 0\<rparr>]
            [JugsState [\<lparr>capacity = 3, amount = 3\<rparr>, \<lparr>capacity = 5, amount = 0\<rparr>] [] False] False))
     = JugsState [\<lparr>capacity = 3, amount = 0\<rparr>, \<lparr>capacity = 5, amount = 0\<rparr>]
            [JugsState [\<lparr>capacity = 3, amount = 3\<rparr>, \<lparr>capacity = 5, amount = 0\<rparr>] [] False] False \<and>
   distinct (map amounts (all_states (start (snd (the
      (graph_it (JugsGraph_init (map Jug_init [3, 5]) 4)))))))"
proof -
  have "\<forall>c\<in>set [3, 5 :: int]. 0 \<le> c" by simp
  from run_in_range [OF this, of 4]
  have "graph_it (JugsGraph_init (map Jug_init [3, 5]) 4) =
          Some (fst (the (graph_it (JugsGraph_init (map Jug_init [3, 5]) 4))),
                snd (the (graph_it (JugsGraph_init (map Jug_init [3, 5]) 4))))"
    by (auto simp: run_def)
  with no_duplicate_states
    [where root = "JugsState [\<lparr>capacity = 3, amount = 0\<rparr>, \<lparr>capacity = 5, amount = 0\<rparr>]
            [JugsState [\<lparr>capacity = 3, amount = 3\<rparr>, \<lparr>capacity = 5, amount = 0\<rparr>] [] False] False"
       and cand = "JugsState [\<lparr>capacity = 3, amount = 0\<rparr>, \<lparr>capacity = 5, amount = 0\<rparr>] [] False"
       and tgt = 4 and p = "[0]" and caps = "[3, 5]"
       and e = "fst (the (graph_it (JugsGraph_init (map Jug_init [3, 5]) 4)))"
       and g = "snd (the (graph_it (JugsGraph_init (map Jug_init [3, 5]) 4)))"]
  show ?thesis
    by (simp add: capacities_def amounts_def)
qed

subsection \<open>Runs that find nothing\<close>




lemma single_jug_zero_nonzero:
  assumes "c \<noteq> 0"
  shows "helper 0 [] (JugsState_init (map Jug_init [c])) =
           Some (None, JugsState [\<lparr>capacity = c, amount = 0\<rparr>]
                         [JugsState [\<lparr>capacity = c, amount = c\<rparr>] [] False] False)"
proof -
  let ?root1 = "JugsState [\<lparr>capacity = c, amount = 0\<rparr>]
                  [JugsState [\<lparr>capacity = c, amount = c\<rparr>] [] False] False"
  have child: "helper 0 [0] ?root1 = Some (None, ?root1)"
    using assms
    by (subst helper.simps)
      (simp add: try_state_def state_exists_def is_same_def fill_state_def empty_state_def
        JugsState_init_def fill_to_full_def empty_jug_def has_fill_amount_def
        set_goal_flag_def add_state_def Let_def)
  show ?thesis
    using assms child
    by (subst helper.simps)
      (simp add: try_state_def state_exists_def is_same_def fill_state_def empty_state_def
        JugsState_init_def fill_to_full_def empty_jug_def has_fill_amount_def
        set_goal_flag_def add_state_def Let_def Jug_init_def)
qed

lemma single_jug_zero_zero:
  "helper 0 [] (JugsState_init (map Jug_init [0])) =
     Some (None, JugsState [\<lparr>capacity = 0, amount = 0\<rparr>] [] False)"
  by (subst helper.simps)
    (simp add: try_state_def state_exists_def is_same_def fill_state_def empty_state_def
      JugsState_init_def fill_to_full_def empty_jug_def has_fill_amount_def
      set_goal_flag_def add_state_def Let_def Jug_init_def)




text \<open>
  C10. The goal flag is only ever set on a candidate: the root of the graph that
  \<open>graph_it\<close> returns is not flagged. With a single jug and target 0, which only the
  root holds, nothing is flagged and \<open>print_solutions\<close> prints that no solution was
  found.
\<close>

theorem root_is_never_goal:
  "(graph_it (JugsGraph_init (map Jug_init caps) tgt) = Some (e, g)
      \<longrightarrow> \<not> goal_flag (start g)) \<and>
   report [c] 0 = Some (None, [NoSolutionFound])"
proof
  show "graph_it (JugsGraph_init (map Jug_init caps) tgt) = Some (e, g)
      \<longrightarrow> \<not> goal_flag (start g)"
  proof
    assume "graph_it (JugsGraph_init (map Jug_init caps) tgt) = Some (e, g)"
    then have "run caps tgt = Some (e, g)" by (simp add: run_def)
    from helper_root_partial [OF run_cases(1) [OF this]]
    show "\<not> goal_flag (start g)" by (simp add: tree_inv_def)
  qed
  show "report [c] 0 = Some (None, [NoSolutionFound])"
  proof (cases "c = 0")
    case True
    with run_eq [OF single_jug_zero_zero] show ?thesis
      by (simp add: report_def print_solutions_def)
  next
    case False
    from run_eq [OF single_jug_zero_nonzero [OF False]] show ?thesis
      by (simp add: report_def print_solutions_def)
  qed
qed

theorem root_is_never_goal_witness:
  "\<not> goal_flag (start (snd (the (graph_it (JugsGraph_init (map Jug_init [7]) 7))))) \<and>
   report [7] 0 = Some (None, [NoSolutionFound])"
proof -
  have "\<forall>c\<in>set [7 :: int]. 0 \<le> c" by simp
  from run_in_range [OF this, of 7]
  have "graph_it (JugsGraph_init (map Jug_init [7]) 7) =
          Some (fst (the (graph_it (JugsGraph_init (map Jug_init [7]) 7))),
                snd (the (graph_it (JugsGraph_init (map Jug_init [7]) 7))))"
    by (auto simp: run_def)
  with root_is_never_goal
    [where caps = "[7]" and tgt = 7 and c = 7
       and e = "fst (the (graph_it (JugsGraph_init (map Jug_init [7]) 7)))"
       and g = "snd (the (graph_it (JugsGraph_init (map Jug_init [7]) 7)))"]
  show ?thesis by simp
qed

subsection \<open>The jugs of 3 and 5 with target 4\<close>

text \<open>
  C2, as amended. For capacities 3 and 5 and target 4 a solution is found, and the
  shortest solution that is reported has 7 states (6 moves), from the empty root to the
  state that holds 4 in the jug of 5.
\<close>

theorem three_five_four_best:
  "reported_best [3, 5] 4 =
     Some [jugs_of [3, 5] [0, 0], jugs_of [3, 5] [0, 5], jugs_of [3, 5] [3, 2],
           jugs_of [3, 5] [0, 2], jugs_of [3, 5] [2, 0], jugs_of [3, 5] [2, 5],
           jugs_of [3, 5] [3, 4], Steps 7]"
  by code_simp

text \<open>C2 as stated fails: the step count printed for the best solution is not 6.\<close>

theorem three_five_four_not_six:
  "map_option last (reported_best [3, 5] 4) \<noteq> Some (Steps 6)"
  by code_simp

subsection \<open>The halt on a goal\<close>

text \<open>
  C1 as stated fails. In the run with capacities 3 and 5 and target 4, the expansion of
  the first child of the root marks the state (0, 4) as goal: the tree then has 11
  states. The run goes on to expand the second child of the root, which attaches five
  more states, one of them the second goal (3, 4), and the graph it returns has 16.
\<close>

theorem expansion_goes_on_after_goal:
  "map amounts (goal_states first_goal_tree) = [[0, 4]] \<and>
   count_states first_goal_tree = 11 \<and>
   \<not> halts_globally 4 [1] first_goal_tree \<and>
   map_option (\<lambda>r. count_states (snd r)) (helper 4 [1] first_goal_tree) = Some 16 \<and>
   map_option (\<lambda>r. start (snd r)) (run [3, 5] 4) =
     map_option snd (helper 4 [1] first_goal_tree) \<and>
   map_option (\<lambda>r. map amounts (goal_states (start (snd r)))) (run [3, 5] 4) =
     Some [[0, 4], [3, 4]]"
  by code_simp

subsection \<open>The loops handle the candidates in order\<close>

lemma try_all_append:
  "try_all tgt p (xs @ ys) root =
     (case try_all tgt p xs root of
        (Some e, root1) \<Rightarrow> (Some e, root1)
      | (None, root1) \<Rightarrow> try_all tgt p ys root1)"
  by (induction xs arbitrary: root) (auto split: prod.splits option.splits)

lemma transfer_loop_try_all:
  "transfer_loop tgt p js i ks root =
     try_all tgt p (map (transfer_state js i) (filter (\<lambda>k. i \<noteq> k) ks)) root"
  by (induction ks arbitrary: root) (auto split: prod.splits option.splits)

lemma jug_loop_try_all:
  "jug_loop tgt p js is root = try_all tgt p (concat (map (candidates_of js) is)) root"
proof (induction "is" arbitrary: root)
  case Nil
  show ?case by simp
next
  case (Cons i "is")
  show ?case
    by (simp add: candidates_of_def try_all_append transfer_loop_try_all Cons.IH
        split: prod.splits option.splits)
qed

lemma jug_loop_candidate_list:
  "jug_loop tgt p js [0..<length js] root = try_all tgt p (candidate_list js) root"
  by (simp add: jug_loop_try_all candidate_list_def)

lemma candidate_list_candidates: "set (candidate_list js) \<subseteq> candidates js"
  by (auto simp: candidate_list_def candidates_of_def candidates_def)

lemma try_state_shape:
  assumes sh: "\<forall>x\<in>set (all_states root). capacities x = caps" and v: "valid_at p root"
    and c: "c \<in> candidates js" and cap: "map capacity js = caps"
  shows "fst (try_state tgt p c root) = (if has_fill_amount c tgt then Some GoalFound else None)"
    and "\<forall>x\<in>set (all_states (snd (try_state tgt p c root))). capacities x = caps"
    and "valid_at p (snd (try_state tgt p c root))"
proof -
  note cf = candidates_form [OF c]
  have capc: "capacities c = caps"
    using cf(3) cap by (simp add: capacities_def)
  have shape: "capacities x = capacities c" if "x \<in> set (all_states root)" for x
    using sh that capc by simp
  note eq = try_state_eq [of root c tgt p, OF shape]
  show "fst (try_state tgt p c root) = (if has_fill_amount c tgt then Some GoalFound else None)"
    by (simp add: eq)
  show "valid_at p (snd (try_state tgt p c root))"
    using try_state_extends [of root tgt p c] v by (rule extends_valid)
  show "\<forall>x\<in>set (all_states (snd (try_state tgt p c root))). capacities x = caps"
  proof (cases "amounts c \<in> set (map amounts (all_states root))")
    case True
    with eq sh show ?thesis by simp
  next
    case False
    let ?b = "has_fill_amount c tgt"
    let ?c' = "set_goal_flag ?b c"
    let ?r = "add_state_at p ?c' root"
    have leaf: "all_nodes ?c' = [(jugs c, ?b)]"
      using cf(1) by (simp add: set_goal_flag_def all_nodes_simp)
    from all_nodes_add_state_at [OF v, of ?c'] leaf
    have "mset (all_nodes ?r) = mset ((jugs c, ?b) # all_nodes root)" by simp
    then have s: "set (all_nodes ?r) = insert (jugs c, ?b) (set (all_nodes root))"
      by (metis list.simps(15) set_mset_mset)
    from sh have "\<forall>n\<in>set (all_nodes root). map capacity (fst n) = caps"
      by (simp add: capacities_all_states)
    with s cf(3) cap have "\<forall>n\<in>set (all_nodes ?r). map capacity (fst n) = caps"
      by simp
    then have "\<forall>x\<in>set (all_states ?r). capacities x = caps"
      by (simp add: capacities_all_states)
    with eq False show ?thesis by simp
  qed
qed

lemma try_all_no_goal:
  assumes cap: "map capacity js = caps"
  shows "\<forall>x\<in>set (all_states root). capacities x = caps \<Longrightarrow> valid_at p root \<Longrightarrow>
         set cs \<subseteq> candidates js \<Longrightarrow> \<forall>d\<in>set cs. \<not> has_fill_amount d tgt \<Longrightarrow>
           fst (try_all tgt p cs root) = None \<and>
           (\<forall>x\<in>set (all_states (snd (try_all tgt p cs root))). capacities x = caps) \<and>
           valid_at p (snd (try_all tgt p cs root))"
proof (induction cs arbitrary: root)
  case Nil
  then show ?case by simp
next
  case (Cons c cs)
  from Cons.prems have c: "c \<in> candidates js" and ng: "\<not> has_fill_amount c tgt" by auto
  obtain e r where t: "try_state tgt p c root = (e, r)" by (cases "try_state tgt p c root")
  from try_state_shape [OF Cons.prems(1,2) c cap, of tgt] t ng
  have e: "e = None" and sh: "\<forall>x\<in>set (all_states r). capacities x = caps"
    and v: "valid_at p r" by simp_all
  from Cons.IH [OF sh v] Cons.prems(3,4) t e show ?case by simp
qed

text \<open>
  C1, as amended. Take a state of the tree and the first of its candidates, in the
  order of generation, that holds the goal amount. The candidates before it are handled
  without a raise; that candidate is marked as goal and raises GoalFound, and the loops
  over the candidates stop there. The helper call on the state returns the tree exactly
  as it was at that moment, which is the tree after the earlier candidates with at most
  the marked candidate added: no later candidate is generated or attached and no child
  of the state is expanded. The halt ends with that call.
\<close>

theorem goal_halts_current_state:
  assumes "state_at p root = Some s"
    and "\<forall>x\<in>set (all_states root). capacities x = capacities s"
    and "candidate_list (jugs s) = pre @ c # post"
    and "\<forall>d\<in>set pre. \<not> has_fill_amount d tgt"
    and "has_fill_amount c tgt"
  shows "fst (try_all tgt p pre root) = None \<and>
         jug_loop tgt p (jugs s) [0..<length (jugs s)] root =
           (Some GoalFound, snd (try_state tgt p c (snd (try_all tgt p pre root)))) \<and>
         helper tgt p root =
           Some (None, snd (try_state tgt p c (snd (try_all tgt p pre root)))) \<and>
         snd (try_state tgt p c (snd (try_all tgt p pre root))) =
           (if amounts c \<in> set (map amounts (all_states (snd (try_all tgt p pre root))))
            then snd (try_all tgt p pre root)
            else add_state_at p (set_goal_flag True c) (snd (try_all tgt p pre root)))"
proof -
  let ?js = "jugs s"
  let ?caps = "capacities s"
  let ?r0 = "snd (try_all tgt p pre root)"
  have cap: "map capacity ?js = ?caps" by (simp add: capacities_def)
  have v: "valid_at p root" using assms(1) by (simp add: valid_at_def)
  from candidate_list_candidates [of ?js] assms(3)
  have pre: "set pre \<subseteq> candidates ?js" and c: "c \<in> candidates ?js" by auto
  from try_all_no_goal [OF cap assms(2) v pre assms(4)]
  have none: "fst (try_all tgt p pre root) = None"
    and sh0: "\<forall>x\<in>set (all_states ?r0). capacities x = ?caps"
    and v0: "valid_at p ?r0" by simp_all
  from try_state_shape(1) [OF sh0 v0 c cap, of tgt] assms(5)
  have raised: "fst (try_state tgt p c ?r0) = Some GoalFound" by simp
  have "try_all tgt p (pre @ c # post) root = try_state tgt p c ?r0"
    using none raised
    by (cases "try_all tgt p pre root"; cases "try_state tgt p c ?r0")
      (simp add: try_all_append)
  with assms(3) raised
  have jl: "jug_loop tgt p ?js [0..<length ?js] root = (Some GoalFound, snd (try_state tgt p c ?r0))"
    by (simp add: jug_loop_candidate_list prod_eq_iff)
  have h: "helper tgt p root = Some (None, snd (try_state tgt p c ?r0))"
    using assms(1) jl by (subst helper.simps) simp
  have capc: "capacities c = ?caps"
    using candidates_form(3) [OF c] by (simp add: capacities_def)
  have "capacities x = capacities c" if "x \<in> set (all_states ?r0)" for x
    using sh0 that capc by simp
  from try_state_eq [of ?r0 c tgt p, OF this] assms(5)
  have tree: "snd (try_state tgt p c ?r0) =
           (if amounts c \<in> set (map amounts (all_states ?r0)) then ?r0
            else add_state_at p (set_goal_flag True c) ?r0)"
    by simp
  from none jl h tree show ?thesis by blast
qed

theorem goal_halts_current_state_witness:
  "snd (jug_loop 2 [] (map Jug_init [5, 3]) [0..<2] (JugsState_init (map Jug_init [5, 3]))) =
     (JugsState [\<lparr>capacity = 5, amount = 0\<rparr>, \<lparr>capacity = 3, amount = 0\<rparr>]
        [JugsState [\<lparr>capacity = 5, amount = 5\<rparr>, \<lparr>capacity = 3, amount = 0\<rparr>] [] False,
         JugsState [\<lparr>capacity = 5, amount = 0\<rparr>, \<lparr>capacity = 3, amount = 3\<rparr>] [] False]
        False) \<and>
   helper 2 [0]
     (JugsState [\<lparr>capacity = 5, amount = 0\<rparr>, \<lparr>capacity = 3, amount = 0\<rparr>]
        [JugsState [\<lparr>capacity = 5, amount = 5\<rparr>, \<lparr>capacity = 3, amount = 0\<rparr>] [] False,
         JugsState [\<lparr>capacity = 5, amount = 0\<rparr>, \<lparr>capacity = 3, amount = 3\<rparr>] [] False]
        False) =
     Some (None,
     (JugsState [\<lparr>capacity = 5, amount = 0\<rparr>, \<lparr>capacity = 3, amount = 0\<rparr>]
        [JugsState [\<lparr>capacity = 5, amount = 5\<rparr>, \<lparr>capacity = 3, amount = 0\<rparr>]
           [JugsState [\<lparr>capacity = 5, amount = 2\<rparr>, \<lparr>capacity = 3, amount = 3\<rparr>] [] True]
           False,
         JugsState [\<lparr>capacity = 5, amount = 0\<rparr>, \<lparr>capacity = 3, amount = 3\<rparr>] [] False]
        False)) \<and>
   amounts (fill_state [\<lparr>capacity = 5, amount = 5\<rparr>, \<lparr>capacity = 3, amount = 0\<rparr>] 1) \<notin> set (map amounts (all_states
     (JugsState [\<lparr>capacity = 5, amount = 0\<rparr>, \<lparr>capacity = 3, amount = 0\<rparr>]
        [JugsState [\<lparr>capacity = 5, amount = 5\<rparr>, \<lparr>capacity = 3, amount = 0\<rparr>]
           [JugsState [\<lparr>capacity = 5, amount = 2\<rparr>, \<lparr>capacity = 3, amount = 3\<rparr>] [] True]
           False,
         JugsState [\<lparr>capacity = 5, amount = 0\<rparr>, \<lparr>capacity = 3, amount = 3\<rparr>] [] False]
        False)))"
proof -
  let ?js = "[\<lparr>capacity = 5, amount = 5\<rparr>, \<lparr>capacity = 3, amount = 0\<rparr>]"
  let ?s = "JugsState ?js [] False"
  let ?t1 = "(JugsState [\<lparr>capacity = 5, amount = 0\<rparr>, \<lparr>capacity = 3, amount = 0\<rparr>]
        [JugsState [\<lparr>capacity = 5, amount = 5\<rparr>, \<lparr>capacity = 3, amount = 0\<rparr>] [] False,
         JugsState [\<lparr>capacity = 5, amount = 0\<rparr>, \<lparr>capacity = 3, amount = 3\<rparr>] [] False]
        False)"
  let ?t2 = "(JugsState [\<lparr>capacity = 5, amount = 0\<rparr>, \<lparr>capacity = 3, amount = 0\<rparr>]
        [JugsState [\<lparr>capacity = 5, amount = 5\<rparr>, \<lparr>capacity = 3, amount = 0\<rparr>]
           [JugsState [\<lparr>capacity = 5, amount = 2\<rparr>, \<lparr>capacity = 3, amount = 3\<rparr>] [] True]
           False,
         JugsState [\<lparr>capacity = 5, amount = 0\<rparr>, \<lparr>capacity = 3, amount = 3\<rparr>] [] False]
        False)"
  let ?pre = "[fill_state ?js 0, empty_state ?js 0]"
  let ?c = "transfer_state ?js 0 1"
  let ?post = "[fill_state ?js 1, empty_state ?js 1, transfer_state ?js 1 0]"
  have h1: "state_at [0] ?t1 = Some ?s" by simp
  have h2: "\<forall>x\<in>set (all_states ?t1). capacities x = capacities ?s"
    by (simp add: capacities_def)
  have h3: "candidate_list (jugs ?s) = ?pre @ ?c # ?post"
    by code_simp
  have h4: "\<forall>d\<in>set ?pre. \<not> has_fill_amount d 2"
    by code_simp
  have h5: "has_fill_amount ?c 2"
    by code_simp
  have t: "snd (try_state 2 [0] ?c (snd (try_all 2 [0] ?pre ?t1))) = ?t2"
    by code_simp
  have r: "snd (jug_loop 2 [] (map Jug_init [5, 3]) [0..<2]
                 (JugsState_init (map Jug_init [5, 3]))) = ?t1"
    by code_simp
  have n: "amounts (fill_state ?js 1) \<notin> set (map amounts (all_states ?t2))"
    by code_simp
  from goal_halts_current_state [OF h1 h2 h3 h4 h5] t r n show ?thesis
    by simp
qed

subsection \<open>The extraction of the solutions\<close>

lemma get_state_path_eq:
  "get_state_path s ps acc = rev ps @ s # acc"
  by (induction s ps acc rule: get_state_path.induct) simp_all

lemma print_paths_append:
  "print_paths n (xs @ ys) = print_paths n xs @ print_paths (n + int (length xs)) ys"
  by (induction xs arbitrary: n) (simp_all add: add.assoc add.commute add.left_commute)

lemma fold_traverse:
  assumes "\<And>x n sols out. x \<in> set ns \<Longrightarrow>
             traverse_states ps x (n, sols, out) =
               (n + int (length (goal_paths (rev ps) x)),
                sols @ map solution_of (goal_paths (rev ps) x),
                out @ print_paths n (goal_paths (rev ps) x))"
  shows "fold (traverse_states ps) ns (n, sols, out) =
           (n + int (length (concat (map (goal_paths (rev ps)) ns))),
            sols @ map solution_of (concat (map (goal_paths (rev ps)) ns)),
            out @ print_paths n (concat (map (goal_paths (rev ps)) ns)))"
  using assms
proof (induction ns arbitrary: n sols out)
  case Nil
  show ?case by simp
next
  case (Cons x ns)
  have "fold (traverse_states ps) (x # ns) (n, sols, out) =
          fold (traverse_states ps) ns (traverse_states ps x (n, sols, out))"
    by simp
  also have "traverse_states ps x (n, sols, out) =
               (n + int (length (goal_paths (rev ps) x)),
                sols @ map solution_of (goal_paths (rev ps) x),
                out @ print_paths n (goal_paths (rev ps) x))"
    by (rule Cons.prems) simp
  also have "fold (traverse_states ps) ns \<dots> =
      (n + int (length (goal_paths (rev ps) x))
         + int (length (concat (map (goal_paths (rev ps)) ns))),
       (sols @ map solution_of (goal_paths (rev ps) x))
         @ map solution_of (concat (map (goal_paths (rev ps)) ns)),
       (out @ print_paths n (goal_paths (rev ps) x))
         @ print_paths (n + int (length (goal_paths (rev ps) x)))
             (concat (map (goal_paths (rev ps)) ns)))"
    by (rule Cons.IH) (simp add: Cons.prems)
  finally show ?case
    by (simp add: print_paths_append)
qed

lemma traverse_states_eq:
  "traverse_states ps s (n, sols, out) =
     (n + int (length (goal_paths (rev ps) s)),
      sols @ map solution_of (goal_paths (rev ps) s),
      out @ print_paths n (goal_paths (rev ps) s))"
proof (induction s arbitrary: ps n sols out)
  case (JugsState js ns f)
  show ?case
  proof (cases f)
    case True
    then show ?thesis
      by (simp add: Let_def get_state_path_eq solution_of_def print_path_def)
  next
    case False
    let ?cur = "JugsState js ns f"
    have "fold (traverse_states (?cur # ps)) ns (n, sols, out) =
           (n + int (length (concat (map (goal_paths (rev (?cur # ps))) ns))),
            sols @ map solution_of (concat (map (goal_paths (rev (?cur # ps))) ns)),
            out @ print_paths n (concat (map (goal_paths (rev (?cur # ps))) ns)))"
      by (rule fold_traverse) (rule JugsState.IH)
    with False show ?thesis by (simp add: Let_def)
  qed
qed

lemma steps_solution_of: "steps (solution_of path) = int (length path)"
  by (simp add: solution_of_def)

lemma min_loop_first_min:
  assumes "(sol = None \<and> m = M \<and> (\<forall>q\<in>set pre. M \<le> int (length q))) \<or>
           (\<exists>xs b ys. pre = xs @ b # ys \<and> sol = Some (solution_of b) \<and> m = int (length b) \<and>
              (\<forall>q\<in>set xs. length b < length q) \<and> (\<forall>q\<in>set ys. length b \<le> length q))"
  shows "(snd (min_loop (map solution_of ss) m sol) = None \<and>
            (\<forall>q\<in>set (pre @ ss). M \<le> int (length q))) \<or>
         (\<exists>xs b ys. pre @ ss = xs @ b # ys \<and>
            snd (min_loop (map solution_of ss) m sol) = Some (solution_of b) \<and>
            (\<forall>q\<in>set xs. length b < length q) \<and> (\<forall>q\<in>set ys. length b \<le> length q))"
  using assms
proof (induction ss arbitrary: pre m sol)
  case Nil
  then show ?case by auto
next
  case (Cons s ss)
  show ?case
  proof (cases "int (length s) < m")
    case True
    have "\<forall>q\<in>set pre. length s < length q"
    proof
      fix q assume q: "q \<in> set pre"
      from Cons.prems show "length s < length q"
      proof
        assume "sol = None \<and> m = M \<and> (\<forall>q\<in>set pre. M \<le> int (length q))"
        with q True have "int (length s) < int (length q)" by force
        then show ?thesis by simp
      next
        assume "\<exists>xs b ys. pre = xs @ b # ys \<and> sol = Some (solution_of b) \<and>
              m = int (length b) \<and>
              (\<forall>q\<in>set xs. length b < length q) \<and> (\<forall>q\<in>set ys. length b \<le> length q)"
        then obtain xs b ys where p: "pre = xs @ b # ys" "m = int (length b)"
          "\<forall>q\<in>set xs. length b < length q" "\<forall>q\<in>set ys. length b \<le> length q"
          by blast
        from p(1) q have "q \<in> set xs \<or> q = b \<or> q \<in> set ys" by auto
        with p(3,4) have "length b \<le> length q" by (auto intro: less_imp_le)
        with True p(2) show ?thesis by simp
      qed
    qed
    then have "\<exists>xs b ys. pre @ [s] = xs @ b # ys \<and> Some (solution_of s) = Some (solution_of b) \<and>
        int (length s) = int (length b) \<and>
        (\<forall>q\<in>set xs. length b < length q) \<and> (\<forall>q\<in>set ys. length b \<le> length q)"
      by (intro exI [of _ pre] exI [of _ s] exI [of _ "[]"]) simp
    then have "(snd (min_loop (map solution_of ss) (int (length s)) (Some (solution_of s))) = None \<and>
            (\<forall>q\<in>set ((pre @ [s]) @ ss). M \<le> int (length q))) \<or>
         (\<exists>xs b ys. (pre @ [s]) @ ss = xs @ b # ys \<and>
            snd (min_loop (map solution_of ss) (int (length s)) (Some (solution_of s)))
              = Some (solution_of b) \<and>
            (\<forall>q\<in>set xs. length b < length q) \<and> (\<forall>q\<in>set ys. length b \<le> length q))"
      by (intro Cons.IH) blast
    with True show ?thesis by (simp add: steps_solution_of)
  next
    case False
    have "(sol = None \<and> m = M \<and> (\<forall>q\<in>set (pre @ [s]). M \<le> int (length q))) \<or>
           (\<exists>xs b ys. pre @ [s] = xs @ b # ys \<and> sol = Some (solution_of b) \<and>
              m = int (length b) \<and>
              (\<forall>q\<in>set xs. length b < length q) \<and> (\<forall>q\<in>set ys. length b \<le> length q))"
      using Cons.prems
    proof
      assume "sol = None \<and> m = M \<and> (\<forall>q\<in>set pre. M \<le> int (length q))"
      with False show ?thesis by auto
    next
      assume "\<exists>xs b ys. pre = xs @ b # ys \<and> sol = Some (solution_of b) \<and> m = int (length b) \<and>
              (\<forall>q\<in>set xs. length b < length q) \<and> (\<forall>q\<in>set ys. length b \<le> length q)"
      then obtain xs b ys where p: "pre = xs @ b # ys" "sol = Some (solution_of b)"
        "m = int (length b)" "\<forall>q\<in>set xs. length b < length q"
        "\<forall>q\<in>set ys. length b \<le> length q" by blast
      with False have "pre @ [s] = xs @ b # (ys @ [s])"
        and "\<forall>q\<in>set (ys @ [s]). length b \<le> length q" by auto
      with p show ?thesis by blast
    qed
    from Cons.IH [OF this] False show ?thesis by (simp add: steps_solution_of)
  qed
qed

lemma goal_paths_empty:
  "goal_paths upper s = [] \<longleftrightarrow> goal_states s = []"
proof (induction s arbitrary: upper)
  case (JugsState js ns f)
  have "(\<forall>x\<in>set ns. goal_paths (upper @ [JugsState js ns f]) x = []) \<longleftrightarrow>
        (\<forall>x\<in>set ns. goal_states x = [])"
    using JugsState.IH by blast
  then show ?case
    by (auto simp: goal_states_def filter_empty_conv)
qed

lemma goal_paths_length:
  "q \<in> set (goal_paths upper s) \<Longrightarrow> length q \<le> length upper + count_states s"
proof (induction s arbitrary: upper)
  case (JugsState js ns f)
  show ?case
  proof (cases f)
    case True
    with JugsState.prems show ?thesis by (simp add: count_states_def)
  next
    case False
    with JugsState.prems obtain x where x: "x \<in> set ns"
      and q: "q \<in> set (goal_paths (upper @ [JugsState js ns f]) x)" by auto
    from x obtain i where i: "i < length ns" "x = ns ! i"
      by (auto simp: in_set_conv_nth)
    from JugsState.IH [OF x q] have "length q \<le> Suc (length upper) + count_states x" by simp
    moreover from length_le_concat [OF i(1), of all_states] i
    have "count_states x \<le> length (concat (map all_states ns))"
      by (simp add: count_states_def)
    ultimately show ?thesis by (simp add: count_states_def)
  qed
qed

lemma print_paths_lines: "NoSolutionFound \<notin> set (print_paths n paths)"
  by (induction paths arbitrary: n) (auto simp: print_path_def)

text \<open>
  C8. On a graph that was built, with fewer states than the start value 9999999999 of
  the search for the minimum: when no state is marked as goal, \<open>print_solutions\<close> prints
  that no solution was found, and only then. Otherwise it prints every path from the
  root to a goal state, in depth-first order and numbered from 1, and after them the
  path of least length, the first such path when several have that length.
\<close>

theorem print_solutions_reports:
  assumes "graphed g" and "int (count_states (start g)) < 9999999999"
  shows "(goal_states (start g) = [] \<longrightarrow> print_solutions g = (None, [NoSolutionFound])) \<and>
         (goal_states (start g) \<noteq> [] \<longrightarrow>
            NoSolutionFound \<notin> set (snd (print_solutions g)) \<and>
            (\<exists>pre b post.
               goal_paths [] (start g) = pre @ b # post \<and>
               (\<forall>q\<in>set pre. length b < length q) \<and> (\<forall>q\<in>set post. length b \<le> length q) \<and>
               print_solutions g =
                 (None, print_paths 0 (goal_paths [] (start g)) @ [BestSolutionFound]
                        @ map (\<lambda>s. Jugs (jugs s)) b @ [Steps (int (length b))])))"
proof -
  let ?P = "goal_paths [] (start g)"
  have tr: "traverse_states [] (start g) (0, [], []) =
              (int (length ?P), map solution_of ?P, print_paths 0 ?P)"
    using traverse_states_eq [of "[]" "start g" 0 "[]" "[]"] by simp
  have none: "print_solutions g = (None, [NoSolutionFound])" if "goal_states (start g) = []"
  proof -
    from that have "?P = []" by (simp add: goal_paths_empty)
    with tr assms(1) show ?thesis by (simp add: print_solutions_def)
  qed
  have some: "NoSolutionFound \<notin> set (snd (print_solutions g)) \<and>
            (\<exists>pre b post.
               ?P = pre @ b # post \<and>
               (\<forall>q\<in>set pre. length b < length q) \<and> (\<forall>q\<in>set post. length b \<le> length q) \<and>
               print_solutions g =
                 (None, print_paths 0 ?P @ [BestSolutionFound]
                        @ map (\<lambda>s. Jugs (jugs s)) b @ [Steps (int (length b))]))"
    if "goal_states (start g) \<noteq> []"
  proof -
    from that have ne: "?P \<noteq> []" by (simp add: goal_paths_empty)
    have short: "int (length q) < 9999999999" if "q \<in> set ?P" for q
      using goal_paths_length [OF that] assms(2) by simp
    from min_loop_first_min [of None 9999999999 9999999999 "[]" ?P]
    have "(snd (min_loop (map solution_of ?P) 9999999999 None) = None \<and>
            (\<forall>q\<in>set ?P. 9999999999 \<le> int (length q))) \<or>
         (\<exists>xs b ys. ?P = xs @ b # ys \<and>
            snd (min_loop (map solution_of ?P) 9999999999 None) = Some (solution_of b) \<and>
            (\<forall>q\<in>set xs. length b < length q) \<and> (\<forall>q\<in>set ys. length b \<le> length q))"
      by simp
    moreover have "\<not> (\<forall>q\<in>set ?P. 9999999999 \<le> int (length q))"
      using ne short by (cases ?P) force+
    ultimately obtain pre b post where d: "?P = pre @ b # post"
      and m: "snd (min_loop (map solution_of ?P) 9999999999 None) = Some (solution_of b)"
      and lt: "\<forall>q\<in>set pre. length b < length q" and le: "\<forall>q\<in>set post. length b \<le> length q"
      by blast
    from ne have "int (length ?P) \<noteq> 0" by simp
    with tr m assms(1) have eq: "print_solutions g =
        (None, print_paths 0 ?P @ [BestSolutionFound]
               @ map (\<lambda>s. Jugs (jugs s)) b @ [Steps (int (length b))])"
      by (simp add: print_solutions_def solution_of_def)
    then have "NoSolutionFound \<notin> set (snd (print_solutions g))"
      by (auto simp: print_paths_lines)
    with d lt le eq show ?thesis by blast
  qed
  from none some show ?thesis by blast
qed

theorem print_solutions_reports_witness:
  "print_solutions \<lparr>start = JugsState [\<lparr>capacity = 7, amount = 0\<rparr>] [] False,
                    goal = 4, graphed = True\<rparr> = (None, [NoSolutionFound]) \<and>
   NoSolutionFound \<notin> set (snd (print_solutions
      \<lparr>start = JugsState [\<lparr>capacity = 7, amount = 0\<rparr>]
                 [JugsState [\<lparr>capacity = 7, amount = 7\<rparr>] [] True] False,
       goal = 7, graphed = True\<rparr>)) \<and>
   (\<exists>pre b post.
      goal_paths [] (JugsState [\<lparr>capacity = 7, amount = 0\<rparr>]
                 [JugsState [\<lparr>capacity = 7, amount = 7\<rparr>] [] True] False) = pre @ b # post \<and>
      print_solutions
        \<lparr>start = JugsState [\<lparr>capacity = 7, amount = 0\<rparr>]
                   [JugsState [\<lparr>capacity = 7, amount = 7\<rparr>] [] True] False,
         goal = 7, graphed = True\<rparr> =
        (None, print_paths 0 (goal_paths [] (JugsState [\<lparr>capacity = 7, amount = 0\<rparr>]
                 [JugsState [\<lparr>capacity = 7, amount = 7\<rparr>] [] True] False))
               @ [BestSolutionFound] @ map (\<lambda>s. Jugs (jugs s)) b @ [Steps (int (length b))]))"
proof -
  let ?g0 = "\<lparr>start = JugsState [\<lparr>capacity = 7, amount = 0\<rparr>] [] False,
              goal = 4, graphed = True\<rparr>"
  let ?g7 = "\<lparr>start = JugsState [\<lparr>capacity = 7, amount = 0\<rparr>]
                 [JugsState [\<lparr>capacity = 7, amount = 7\<rparr>] [] True] False,
              goal = 7, graphed = True\<rparr>"
  have a0: "graphed ?g0" and b0: "int (count_states (start ?g0)) < 9999999999"
    and c0: "goal_states (start ?g0) = []"
    by (simp_all add: count_states_def goal_states_def)
  have a7: "graphed ?g7" and b7: "int (count_states (start ?g7)) < 9999999999"
    and c7: "goal_states (start ?g7) \<noteq> []"
    by (simp_all add: count_states_def goal_states_def)
  from print_solutions_reports [OF a0 b0] c0 print_solutions_reports [OF a7 b7] c7
  show ?thesis by (simp del: goal_paths.simps print_paths.simps) blast
qed

end
